theory Spec2Isabelle
  imports Complex_Main "HOL-Library.Log_Nat"
begin

section \<open>JavaScript strings and numbers\<close>

text \<open>
  Strings are lists of code units; the model covers the code units 0..255, which is what
  \<^typ>\<open>char\<close> holds.  Integers that the program stores (channels, frames, indices, ids) are
  \<^typ>\<open>int\<close>: the model is exact for the safe integers of JavaScript (magnitude below
  \<open>2 ^ 53\<close>).  Results of a division or of a product with a fraction are doubles and are
  rounded to 53 significant bits, see \<open>fl\<close> below.
\<close>

text \<open>The white space of \<open>\s\<close> and of \<open>String.prototype.trim\<close> among the code units 0..255:
  TAB, LF, VT, FF, CR, SPACE and NBSP.\<close>

definition isSpace :: "char \<Rightarrow> bool" where
  "isSpace c = (c \<in> set [CHR 0x09, CHR 0x0A, CHR 0x0B, CHR 0x0C, CHR 0x0D, CHR 0x20, CHR 0xA0])"

text \<open>\<open>\d\<close> is \<open>[0-9]\<close>.\<close>

definition isDigit :: "char \<Rightarrow> bool" where
  "isDigit c = (c \<in> set ''0123456789'')"

text \<open>A string that \<open>\d+\<close> matches as a whole.\<close>

definition isNumeral :: "string \<Rightarrow> bool" where
  "isNumeral ds = (ds \<noteq> [] \<and> list_all isDigit ds)"

definition dquote :: char where
  "dquote = CHR 0x22"

definition trim :: "string \<Rightarrow> string" where
  "trim s = rev (dropWhile isSpace (rev (dropWhile isSpace s)))"

text \<open>The value of a digit in radix 16 (\<open>parseInt\<close> accepts both cases).\<close>

definition digitVal :: "char \<Rightarrow> nat option" where
  "digitVal c = map_of
     [(CHR ''0'', 0), (CHR ''1'', 1), (CHR ''2'', 2), (CHR ''3'', 3), (CHR ''4'', 4),
      (CHR ''5'', 5), (CHR ''6'', 6), (CHR ''7'', 7), (CHR ''8'', 8), (CHR ''9'', 9),
      (CHR ''a'', 10), (CHR ''b'', 11), (CHR ''c'', 12), (CHR ''d'', 13), (CHR ''e'', 14),
      (CHR ''f'', 15),
      (CHR ''A'', 10), (CHR ''B'', 11), (CHR ''C'', 12), (CHR ''D'', 13), (CHR ''E'', 14),
      (CHR ''F'', 15)] c"

definition isRadixDigit :: "nat \<Rightarrow> char \<Rightarrow> bool" where
  "isRadixDigit R c = (case digitVal c of None \<Rightarrow> False | Some v \<Rightarrow> v < R)"

text \<open>The mathematical value of a digit string, most significant digit first.\<close>

fun digitsValue :: "nat \<Rightarrow> nat \<Rightarrow> string \<Rightarrow> nat" where
  "digitsValue R acc [] = acc"
| "digitsValue R acc (c # cs) = digitsValue R (acc * R + (case digitVal c of None \<Rightarrow> 0 | Some v \<Rightarrow> v)) cs"

text \<open>
  \<open>parseInt(string, radix)\<close>: leading white space is skipped, a sign is read, a \<open>0x\<close>
  or \<open>0X\<close> prefix selects radix 16 when the radix is absent or 16, then the longest
  prefix of digits is read; no digit gives NaN, which is \<open>None\<close> here.
\<close>

definition parseIntRadix :: "nat option \<Rightarrow> string \<Rightarrow> int option" where
  "parseIntRadix radix str =
     (let S = dropWhile isSpace str;
          neg = (case S of c # _ \<Rightarrow> c = CHR ''-'' | [] \<Rightarrow> False);
          S1 = (case S of c # cs \<Rightarrow> if c = CHR ''-'' \<or> c = CHR ''+'' then cs else S | [] \<Rightarrow> S);
          hexPrefix = ((radix = None \<or> radix = Some 16) \<and>
                       (take 2 S1 = ''0x'' \<or> take 2 S1 = ''0X''));
          R = (if hexPrefix then 16 else (case radix of None \<Rightarrow> 10 | Some k \<Rightarrow> k));
          S2 = (if hexPrefix then drop 2 S1 else S1);
          Z = takeWhile (isRadixDigit R) S2
      in if Z = [] then None
         else Some ((if neg then - 1 else 1) * int (digitsValue R 0 Z)))"

definition parseInt :: "string \<Rightarrow> int option" where
  "parseInt str = parseIntRadix None str"

text \<open>\<open>Number.prototype.toString\<close> on an integer, as a template literal applies it.\<close>

definition digitChar :: "nat \<Rightarrow> char" where
  "digitChar n = ''0123456789'' ! n"

fun showNat :: "nat \<Rightarrow> string" where
  "showNat n = (if n < 10 then [digitChar n] else showNat (n div 10) @ [digitChar (n mod 10)])"

declare showNat.simps [simp del]

definition showInt :: "int \<Rightarrow> string" where
  "showInt i = (if i < 0 then CHR ''-'' # showNat (nat (- i)) else showNat (nat i))"

text \<open>\<open>String.prototype.split\<close> with a one-character separator: never the empty list.\<close>

fun split :: "char \<Rightarrow> string \<Rightarrow> string list" where
  "split sep [] = [[]]"
| "split sep (c # cs) =
     (if c = sep then [] # split sep cs
      else (case split sep cs of [] \<Rightarrow> [[c]] | p # ps \<Rightarrow> (c # p) # ps))"


definition endsWith :: "string \<Rightarrow> string \<Rightarrow> bool" where
  "endsWith s suf = (length suf \<le> length s \<and> drop (length s - length suf) s = suf)"

subsection \<open>Doubles\<close>

text \<open>
  A double is modelled by the rational it denotes.  \<open>fl\<close> rounds a rational to the nearest
  number with 53 significant bits, ties to the even significand; exponent range is not
  limited (no overflow, no subnormals: the program's values are far from both).
  \<open>expo x\<close> is the exponent \<open>e\<close> with \<open>2 ^ e \<le> |x| < 2 ^ (e + 1)\<close>.
\<close>

definition expo :: "rat \<Rightarrow> int" where
  "expo x = (let (n, d) = quotient_of \<bar>x\<bar>; e0 = bitlen n - bitlen d
             in if 2 powi e0 \<le> \<bar>x\<bar> then e0 else e0 - 1)"

definition roundHalfEven :: "rat \<Rightarrow> int" where
  "roundHalfEven y =
     (let f = \<lfloor>y\<rfloor>; d = y - of_int f
      in if d < 1 / 2 then f else if 1 / 2 < d then f + 1 else if even f then f else f + 1)"

definition fl :: "rat \<Rightarrow> rat" where
  "fl x = (if x = 0 then 0
           else let ulp = 2 powi (expo x - 52) in of_int (roundHalfEven (x / ulp)) * ulp)"

text \<open>\<open>Math.round\<close>: the nearest integer, a tie goes up.\<close>

definition mathRound :: "rat \<Rightarrow> int" where
  "mathRound x = \<lfloor>x + 1 / 2\<rfloor>"

section \<open>Data model\<close>

text \<open>The four roles of \<open>CONFIG.ROLES\<close>, in the order of the object literal.\<close>

datatype Role = none | shadow | highlight | ao

definition ROLES :: "(Role \<times> string) list" where
  "ROLES = [(none, ''''), (shadow, ''_sh''), (highlight, ''_hl''), (ao, ''_ao'')]"

record RGBA =
  r :: int
  g :: int
  b :: int
  a :: int

record Keyframe = RGBA +
  frame :: int

text \<open>A colour entry.  \<open>keyframes\<close> is \<open>None\<close> when the object has no such property
  (\<open>undefined\<close>).\<close>

record ColorEntry = RGBA +
  hasTrace :: bool
  id_str :: string
  name :: string
  tagID :: string
  role :: Role
  originalIndex :: nat
  keyframes :: "Keyframe list option"

text \<open>Palette metadata; \<open>originalId\<close> and \<open>prefix\<close> are \<open>None\<close> when null or absent.\<close>

record PaletteData =
  palette_name :: string
  version :: string
  shortcuts :: string
  isStudioPalette :: bool
  originalId :: "string option"
  prefix :: "string option"

text \<open>The module state of \<open>state.js\<close>.\<close>

record State =
  paletteData :: "PaletteData option"
  colors :: "ColorEntry list"
  selectedColorIndex :: int
  selectedFrame :: int
  endFrame :: int

datatype error = TypeError | NaNStored

section \<open>colorUtils.js\<close>

definition suffixOf :: "Role \<Rightarrow> string" where
  "suffixOf ro = (case map_of ROLES ro of None \<Rightarrow> '''' | Some s \<Rightarrow> s)"

definition getFullExportName :: "'z ColorEntry_scheme \<Rightarrow> string" where
  "getFullExportName color = name color @ suffixOf (role color)"

definition getShortId :: "string \<Rightarrow> string" where
  "getShortId fullId = (let clean = filter (\<lambda>c. c \<noteq> dquote) fullId;
                            parts = split (CHR ''-'') clean
                        in last parts)"

text \<open>\<open>hexToRgb\<close> of colorUtils.js: three slices read in radix 16, with no check of the
  shape of the string; a slice that is no number gives NaN (\<open>None\<close>) in that field.\<close>

definition slice :: "nat \<Rightarrow> nat \<Rightarrow> string \<Rightarrow> string" where
  "slice i j s = take (j - i) (drop i s)"

definition hexToRgb :: "string \<Rightarrow> int option \<times> int option \<times> int option" where
  "hexToRgb hex = (parseIntRadix (Some 16) (slice 1 3 hex),
                   parseIntRadix (Some 16) (slice 3 5 hex),
                   parseIntRadix (Some 16) (slice 5 7 hex))"

section \<open>The colour wheel's hex parser\<close>

text \<open>
  \<open>/^#?([a-f\d]{2})([a-f\d]{2})([a-f\d]{2})$/i\<close>: an optional \<open>#\<close>, then exactly six
  hexadecimal digits of either case, then the end of the string.  The result is
  \<open>null\<close> (\<open>None\<close>) when the string does not match.
\<close>

definition isHexDigit :: "char \<Rightarrow> bool" where
  "isHexDigit c = (c \<in> set ''0123456789abcdefABCDEF'')"

definition wheelHexToRgb :: "string \<Rightarrow> (int \<times> int \<times> int) option" where
  "wheelHexToRgb hex =
     (let body = (case hex of c # cs \<Rightarrow> if c = CHR ''#'' then cs else hex | [] \<Rightarrow> hex)
      in if length body = 6 \<and> list_all isHexDigit body
         then (case (parseIntRadix (Some 16) (slice 0 2 body),
                     parseIntRadix (Some 16) (slice 2 4 body),
                     parseIntRadix (Some 16) (slice 4 6 body)) of
                 (Some x, Some y, Some z) \<Rightarrow> Some (x, y, z)
               | _ \<Rightarrow> None)
         else None)"

text \<open>The \<open>hex\<close> setter of \<open>HexaColor\<close>: the colour is replaced only when the parser
  gives one.  The colour is kept here as its RGB triple.\<close>

definition setHex :: "string \<Rightarrow> int \<times> int \<times> int \<Rightarrow> int \<times> int \<times> int" where
  "setHex v rgb = (case wheelHexToRgb v of Some c \<Rightarrow> c | None \<Rightarrow> rgb)"

section \<open>parser.js\<close>

subsection \<open>The two record grammars\<close>

text \<open>
  The regular expressions are matched by a backtracking engine; each piece below consumes
  what the greedy quantifier consumes, and the one place where giving back changes the
  result (the optional trace group) is tried both ways in \<open>matchStudio\<close> and
  \<open>matchLevel\<close>.  Every other quantifier is followed by a character of the opposite
  class, so a shorter match cannot succeed where the longest fails.
\<close>

text \<open>\<open>\s+(\d+)\<close>: white space, then the longest run of digits; the digits and the rest.\<close>

definition wsDigits :: "string \<Rightarrow> (string \<times> string) option" where
  "wsDigits s =
     (case s of
        [] \<Rightarrow> None
      | c # cs \<Rightarrow>
          if \<not> isSpace c then None
          else (let s1 = dropWhile isSpace cs; ds = takeWhile isDigit s1
                in if ds = [] then None else Some (ds, dropWhile isDigit s1)))"

text \<open>\<open>\s+(\d+)\s+(\d+)\s+(\d+)\s+(\d+)\s+(\d+)\<close>: tagID and the four channels.  The
  pattern is not anchored at its end: what follows the last digits is ignored.\<close>

definition fiveNumbers :: "string \<Rightarrow> (string \<times> string \<times> string \<times> string \<times> string) option" where
  "fiveNumbers s =
     (case wsDigits s of None \<Rightarrow> None | Some (t, s1) \<Rightarrow>
      case wsDigits s1 of None \<Rightarrow> None | Some (cr, s2) \<Rightarrow>
      case wsDigits s2 of None \<Rightarrow> None | Some (cg, s3) \<Rightarrow>
      case wsDigits s3 of None \<Rightarrow> None | Some (cb, s4) \<Rightarrow>
      case wsDigits s4 of None \<Rightarrow> None | Some (ca, s5) \<Rightarrow>
        Some (t, cr, cg, cb, ca))"

text \<open>\<open>([^\s]+)\<close>: the longest run of characters that are not white space, not empty.\<close>

definition nonSpaces :: "string \<Rightarrow> (string \<times> string) option" where
  "nonSpaces s =
     (let n = takeWhile (\<lambda>c. \<not> isSpace c) s
      in if n = [] then None else Some (n, dropWhile (\<lambda>c. \<not> isSpace c) s))"

text \<open>\<open>("[^"]+")\<close>: a quote, at least one character that is no quote, a quote.  The
  group holds the quotes.\<close>

definition quotedId :: "string \<Rightarrow> (string \<times> string) option" where
  "quotedId s =
     (case s of
        [] \<Rightarrow> None
      | c # cs \<Rightarrow>
          if c \<noteq> dquote then None
          else (let body = takeWhile (\<lambda>x. x \<noteq> dquote) cs
                in if body = [] then None
                   else (case dropWhile (\<lambda>x. x \<noteq> dquote) cs of
                           [] \<Rightarrow> None
                         | q # rest \<Rightarrow> Some (dquote # body @ [dquote], rest))))"

text \<open>\<open>(_1\s+)\<close>: the trace marker and the white space after it.\<close>

definition traceToken :: "string \<Rightarrow> string option" where
  "traceToken s =
     (case s of
        c1 # c2 # c3 # cs \<Rightarrow>
          if c1 = CHR ''_'' \<and> c2 = CHR ''1'' \<and> isSpace c3 then Some (dropWhile isSpace cs)
          else None
      | _ \<Rightarrow> None)"

text \<open>The groups of a match: trace group present, id (studio only), raw name, tagID and
  the four channel numerals.\<close>

type_synonym groups = "bool \<times> string \<times> string \<times> string \<times> string \<times> string \<times> string \<times> string"

definition studioBody :: "bool \<Rightarrow> string \<Rightarrow> groups option" where
  "studioBody tr s =
     (case quotedId s of None \<Rightarrow> None | Some (i, s1) \<Rightarrow>
      case nonSpaces s1 of None \<Rightarrow> None | Some (n, s2) \<Rightarrow>
      case fiveNumbers s2 of None \<Rightarrow> None | Some (t, cr, cg, cb, ca) \<Rightarrow>
        Some (tr, i, n, t, cr, cg, cb, ca))"

definition levelBody :: "bool \<Rightarrow> string \<Rightarrow> groups option" where
  "levelBody tr s =
     (case nonSpaces s of None \<Rightarrow> None | Some (n, s2) \<Rightarrow>
      case fiveNumbers s2 of None \<Rightarrow> None | Some (t, cr, cg, cb, ca) \<Rightarrow>
        Some (tr, [], n, t, cr, cg, cb, ca))"

text \<open>\<open>^\s*(_1\s+)?\<close> followed by the body: the trace group is tried first, and the
  match without it is the fallback.\<close>

definition withOptionalTrace :: "(bool \<Rightarrow> string \<Rightarrow> groups option) \<Rightarrow> string \<Rightarrow> groups option" where
  "withOptionalTrace body s =
     (let s0 = dropWhile isSpace s
      in case (case traceToken s0 of None \<Rightarrow> None | Some s1 \<Rightarrow> body True s1) of
           Some m \<Rightarrow> Some m
         | None \<Rightarrow> body False s0)"

definition matchStudio :: "string \<Rightarrow> groups option" where
  "matchStudio s = withOptionalTrace studioBody s"

definition matchLevel :: "string \<Rightarrow> groups option" where
  "matchLevel s = withOptionalTrace levelBody s"

text \<open>The expression that the dialect selects.\<close>

definition matchRecord :: "bool \<Rightarrow> string \<Rightarrow> groups option" where
  "matchRecord isStudio content = (if isStudio then matchStudio content else matchLevel content)"

subsection \<open>parseStyles\<close>

text \<open>The role loop: the first role whose suffix is not empty and ends the raw name.\<close>

fun decodeRole :: "(Role \<times> string) list \<Rightarrow> string \<Rightarrow> Role \<times> string" where
  "decodeRole [] rawName = (none, rawName)"
| "decodeRole ((key, suffix) # rest) rawName =
     (if suffix \<noteq> [] \<and> endsWith rawName suffix
      then (key, take (length rawName - length suffix) rawName)
      else decodeRole rest rawName)"

text \<open>
  One turn of the \<open>forEach\<close>: \<open>None\<close> is the early return after \<open>console.warn\<close>.
  The channel groups are numerals, so \<open>parseInt\<close> gives a number on each of them
  (lemma \<open>parseInt_numeral\<close>) and the branch for NaN is never taken.
\<close>

definition parseStyle :: "bool \<Rightarrow> nat \<Rightarrow> string \<Rightarrow> ColorEntry option" where
  "parseStyle isStudio index style =
     (let content = trim style
      in case matchRecord isStudio content of
           None \<Rightarrow> None
         | Some (tr, i, rawName, t, cr, cg, cb, ca) \<Rightarrow>
             (case (parseInt cr, parseInt cg, parseInt cb, parseInt ca) of
                (Some vr, Some vg, Some vb, Some va) \<Rightarrow>
                  (let (ro, cleanName) = decodeRole ROLES rawName
                   in Some \<lparr> r = vr, g = vg, b = vb, a = va,
                             hasTrace = tr,
                             id_str = (if isStudio then i else dquote # showInt (int index) @ [dquote]),
                             name = cleanName,
                             tagID = t,
                             role = ro,
                             originalIndex = index,
                             keyframes = Some [] \<rparr>)
              | _ \<Rightarrow> None))"

text \<open>The loop over the style nodes, with the array \<open>colors\<close> and the console as state.\<close>

fun parseStylesFrom ::
  "bool \<Rightarrow> nat \<Rightarrow> string list \<Rightarrow> ColorEntry list \<times> string list \<Rightarrow> ColorEntry list \<times> string list" where
  "parseStylesFrom isStudio index [] acc = acc"
| "parseStylesFrom isStudio index (style # rest) (cols, warnings) =
     (case parseStyle isStudio index style of
        None \<Rightarrow> parseStylesFrom isStudio (Suc index) rest (cols, warnings @ [trim style])
      | Some e \<Rightarrow> parseStylesFrom isStudio (Suc index) rest (cols @ [e], warnings))"

definition parseStyles :: "bool \<Rightarrow> string list \<Rightarrow> ColorEntry list \<times> string list" where
  "parseStyles isStudio styles = parseStylesFrom isStudio 0 styles ([], [])"

subsection \<open>parseAnimation\<close>


fun findIndex :: "('a \<Rightarrow> bool) \<Rightarrow> 'a list \<Rightarrow> nat option" where
  "findIndex P [] = None"
| "findIndex P (x # xs) =
     (if P x then Some 0 else (case findIndex P xs of None \<Rightarrow> None | Some i \<Rightarrow> Some (Suc i)))"




subsection \<open>parseTPL\<close>


definition DEFAULT_TPL_VER :: string where
  "DEFAULT_TPL_VER = ''71 0''"

text \<open>\<open>x || y\<close> on a string that may be null or undefined.\<close>

definition orElse :: "string option \<Rightarrow> string \<Rightarrow> string" where
  "orElse x y = (case x of None \<Rightarrow> y | Some v \<Rightarrow> if v = [] then y else v)"

definition truthy :: "string option \<Rightarrow> bool" where
  "truthy x = (case x of None \<Rightarrow> False | Some v \<Rightarrow> v \<noteq> [])"


section \<open>timeline.js\<close>

text \<open>
  Rendering writes to the page only, and is left out but for one thing:
  \<open>renderTimeline\<close> reads \<open>color.keyframes.forEach\<close> of the selected colour without a
  guard, so it raises when a colour is selected that is missing or has no
  \<open>keyframes\<close> property.  An operation gives the state it leaves and the exception it
  raised, if any: a raise does not undo the writes before it.
\<close>

type_synonym outcome = "State \<times> error option"

definition renderTimeline :: "State \<Rightarrow> error option" where
  "renderTimeline st =
     (if selectedColorIndex st < 0 then None
      else if length (colors st) \<le> nat (selectedColorIndex st) then Some TypeError
      else (case keyframes (colors st ! nat (selectedColorIndex st)) of
              None \<Rightarrow> Some TypeError
            | Some kfs \<Rightarrow> None))"

definition baseColor :: "'z RGBA_scheme \<Rightarrow> RGBA" where
  "baseColor c = \<lparr> r = r c, g = g c, b = b c, a = a c \<rparr>"

text \<open>One channel of the interpolation: \<open>Math.round(prevKey.c + (nextKey.c - prevKey.c) * factor)\<close>.
  The difference of the channels is an integer; the product and the sum are rounded.\<close>

definition lerpChannel :: "int \<Rightarrow> int \<Rightarrow> rat \<Rightarrow> int" where
  "lerpChannel p n factor = mathRound (fl (of_int p + fl (of_int (n - p) * factor)))"

definition getInterpolatedColor :: "int \<Rightarrow> 'z ColorEntry_scheme \<Rightarrow> RGBA" where
  "getInterpolatedColor fr color =
     (case keyframes color of
        None \<Rightarrow> baseColor color
      | Some kfs \<Rightarrow>
          if kfs = [] then baseColor color
          else
            (let prevOpt = (case filter (\<lambda>k. frame k \<le> fr) kfs of
                              [] \<Rightarrow> None
                            | k # ks \<Rightarrow> Some (last (k # ks)));
                 nextOpt = find (\<lambda>k. frame k \<ge> fr) kfs;
                 prevKey = (case prevOpt of
                              Some p \<Rightarrow> p
                            | None \<Rightarrow>
                                (case nextOpt of
                                   Some n \<Rightarrow> n
                                 | None \<Rightarrow> \<lparr> r = r color, g = g color, b = b color, a = a color,
                                             frame = 0 \<rparr>));
                 nextKey = (case nextOpt of Some n \<Rightarrow> n | None \<Rightarrow> prevKey);
                 frameDiff = frame nextKey - frame prevKey
             in if frameDiff = 0 then baseColor prevKey
                else
                  (let factor = fl (of_int (fr - frame prevKey) / of_int frameDiff)
                   in \<lparr> r = lerpChannel (r prevKey) (r nextKey) factor,
                        g = lerpChannel (g prevKey) (g nextKey) factor,
                        b = lerpChannel (b prevKey) (b nextKey) factor,
                        a = lerpChannel (a prevKey) (a nextKey) factor \<rparr>)))"

text \<open>\<open>splice(i, 1)\<close>.\<close>

definition splice1 :: "nat \<Rightarrow> 'a list \<Rightarrow> 'a list" where
  "splice1 i xs = take i xs @ drop (Suc i) xs"

definition setKeyframes :: "nat \<Rightarrow> Keyframe list \<Rightarrow> State \<Rightarrow> State" where
  "setKeyframes i kfs st = st\<lparr> colors := (colors st)[i := (colors st ! i)\<lparr> keyframes := Some kfs \<rparr>] \<rparr>"

text \<open>\<open>toggleKeyframe\<close> works on the selected colour and the selected frame.\<close>

definition toggleKeyframe :: "State \<Rightarrow> outcome" where
  "toggleKeyframe st =
     (if selectedColorIndex st < 0 then (st, None)
      else if length (colors st) \<le> nat (selectedColorIndex st) then (st, Some TypeError)
      else
        (let i = nat (selectedColorIndex st); color = colors st ! i
         in case keyframes color of
              None \<Rightarrow> (st, Some TypeError)
            | Some kfs \<Rightarrow>
                (let st' =
                   (case findIndex (\<lambda>kf. frame kf = selectedFrame st) kfs of
                      Some existingKeyIndex \<Rightarrow> setKeyframes i (splice1 existingKeyIndex kfs) st
                    | None \<Rightarrow>
                        (let frameColor = getInterpolatedColor (selectedFrame st) color;
                             kf = \<lparr> r = r frameColor, g = g frameColor, b = b frameColor,
                                    a = a frameColor, frame = selectedFrame st \<rparr>
                         in setKeyframes i (sort_key frame (kfs @ [kf])) st))
                 in (st', renderTimeline st'))))"

section \<open>ui.js\<close>

definition lastKeyframe :: "Keyframe list \<Rightarrow> int" where
  "lastKeyframe kfs = Max (set (map frame kfs))"

text \<open>\<open>selectColor(idx, forceSelect)\<close>, for an index the page can pass (not negative).\<close>

definition selectColor :: "nat \<Rightarrow> bool \<Rightarrow> State \<Rightarrow> outcome" where
  "selectColor idx forceSelect st =
     (let st' =
        (if selectedColorIndex st = int idx \<and> \<not> forceSelect
         then st\<lparr> selectedColorIndex := - 1 \<rparr>
         else st\<lparr> selectedColorIndex := int idx,
                  selectedFrame := 0,
                  endFrame :=
                    (if idx < length (colors st)
                     then (case keyframes (colors st ! idx) of
                             None \<Rightarrow> 100
                           | Some kfs \<Rightarrow> if kfs = [] then 100 else lastKeyframe kfs + 10)
                     else 100) \<rparr>)
      in (st', renderTimeline st'))"


text \<open>\<open>Math.max(...ids)\<close> on a list that is not empty.\<close>

definition maxOf :: "int list \<Rightarrow> int" where
  "maxOf ids = fold max ids (hd ids)"

text \<open>The three values that \<open>addColor\<close> computes before it pushes: \<open>nextId\<close>, \<open>prefix\<close>
  and the colour it clones (\<open>None\<close> when \<open>getInterpolatedColor\<close> is handed \<open>undefined\<close>
  and raises).\<close>

definition addColor_nextId :: "ColorEntry list \<Rightarrow> int" where
  "addColor_nextId cols =
     (let ids = List.map_filter (\<lambda>c. parseInt (getShortId (id_str c))) cols
      in (if ids \<noteq> [] then maxOf ids else 0) + 1)"

definition addColor_prefix :: "State \<Rightarrow> string" where
  "addColor_prefix st =
     (let firstId = (case colors st of [] \<Rightarrow> [] | c # cs \<Rightarrow> id_str c);
          fromFirst = (if CHR ''-'' \<in> set firstId
                       then filter (\<lambda>c. c \<noteq> dquote) (hd (split (CHR ''-'') firstId)) @ ''-''
                       else [])
      in case paletteData st of
           None \<Rightarrow> fromFirst
         | Some pd \<Rightarrow>
             (case prefix pd of
                None \<Rightarrow> fromFirst
              | Some p \<Rightarrow> if p \<noteq> [] then ''|-'' @ p @ ''-'' else fromFirst))"

definition addColor_source :: "State \<Rightarrow> RGBA option" where
  "addColor_source st =
     (if selectedColorIndex st \<ge> 0
      then (if nat (selectedColorIndex st) < length (colors st)
            then Some (getInterpolatedColor 0 (colors st ! nat (selectedColorIndex st)))
            else None)
      else Some \<lparr> r = 120, g = 120, b = 120, a = 255 \<rparr>)"

definition addColor :: "State \<Rightarrow> outcome" where
  "addColor st =
     (let nextId = addColor_nextId (colors st);
          pfx = addColor_prefix st
      in case addColor_source st of
           None \<Rightarrow> (st, Some TypeError)
         | Some c \<Rightarrow>
             (let newColorIndex = length (colors st);
                  entry = \<lparr> r = r c, g = g c, b = b c, a = a c,
                            hasTrace = False,
                            id_str = dquote # pfx @ showInt nextId @ [dquote],
                            name = ''new_color'',
                            tagID = ''3'',
                            role = none,
                            originalIndex = newColorIndex,
                            keyframes = Some [] \<rparr>
              in selectColor newColorIndex True (st\<lparr> colors := colors st @ [entry] \<rparr>)))"

text \<open>\<open>generatePalettePrefix\<close>: the seconds of the clock and the random number drawn
  (1000 to 90999) are taken as arguments.\<close>

definition generatePalettePrefix :: "nat \<Rightarrow> nat \<Rightarrow> string" where
  "generatePalettePrefix seconds rnd = showNat seconds @ ''_'' @ showNat rnd"

text \<open>\<open>newPalette\<close>: the answer to the prompt is \<open>None\<close> when the dialog is cancelled.
  The two seed entries are written without a \<open>keyframes\<close> property.\<close>

definition newPalette :: "string option \<Rightarrow> nat \<Rightarrow> nat \<Rightarrow> State \<Rightarrow> State" where
  "newPalette answer seconds rnd st =
     (if \<not> truthy answer then st
      else
        (let pfx = generatePalettePrefix seconds rnd
         in st\<lparr> paletteData :=
                   Some \<lparr> palette_name = orElse answer [],
                          version = DEFAULT_TPL_VER,
                          shortcuts = ''0 1 -1 -1 -1 -1 -1 -1 -1 -1 '',
                          isStudioPalette = True,
                          originalId = None,
                          prefix = Some pfx \<rparr>,
                 colors :=
                   [\<lparr> r = 255, g = 255, b = 255, a = 0, hasTrace = False,
                      id_str = dquote # ''|-'' @ pfx @ ''-0'' @ [dquote], name = ''bg'',
                      tagID = ''3'', role = none, originalIndex = 0, keyframes = None \<rparr>,
                    \<lparr> r = 0, g = 0, b = 0, a = 255, hasTrace = False,
                      id_str = dquote # ''|-'' @ pfx @ ''-1'' @ [dquote], name = ''ink'',
                      tagID = ''3'', role = none, originalIndex = 1, keyframes = None \<rparr>] \<rparr>))"

section \<open>wheelManager.js: writes from the wheel and the alpha slider\<close>




section \<open>The eyedropper: applyPickedColor\<close>


section \<open>exporter.js\<close>


definition styleContent :: "bool \<Rightarrow> ColorEntry \<Rightarrow> string" where
  "styleContent isStudio c =
     (let trace = (if hasTrace c then ''_1 '' else []);
          exportName = getFullExportName c
      in if isStudio
         then trace @ id_str c @ exportName @ '' '' @ tagID c @ '' '' @ showInt (r c) @ '' ''
              @ showInt (g c) @ '' '' @ showInt (b c) @ '' '' @ showInt (a c)
         else trace @ exportName @ '' '' @ tagID c @ '' '' @ showInt (r c) @ '' ''
              @ showInt (g c) @ '' '' @ showInt (b c) @ '' '' @ showInt (a c))"








section \<open>The record bodies of the studio dialect, as the format describes them\<close>

text \<open>
  A numeral is canonical when it has no leading zero: it is what \<open>toString\<close> prints.
\<close>

definition canonical :: "string \<Rightarrow> bool" where
  "canonical ds = (isNumeral ds \<and> (ds = ''0'' \<or> hd ds \<noteq> CHR ''0''))"


section \<open>Hexadecimal colour strings, as the format describes them\<close>

text \<open>The value of a hexadecimal digit of either case, from its code, and the byte that two
  digits denote.\<close>

definition hexValue :: "char \<Rightarrow> nat" where
  "hexValue c =
     (let n = (of_char c :: nat)
      in if 48 \<le> n \<and> n \<le> 57 then n - 48
         else if 97 \<le> n \<and> n \<le> 102 then n - 87
         else if 65 \<le> n \<and> n \<le> 70 then n - 55
         else 0)"

definition hexPair :: "char \<Rightarrow> char \<Rightarrow> int" where
  "hexPair hi lo = int (16 * hexValue hi + hexValue lo)"

text \<open>Exactly six hexadecimal digits.\<close>

definition sixHexDigits :: "string \<Rightarrow> bool" where
  "sixHexDigits body = (length body = 6 \<and> list_all isHexDigit body)"

section \<open>The invariant of a keyframe track\<close>

text \<open>Frames ascending and no frame twice.\<close>

definition kfInv :: "Keyframe list \<Rightarrow> bool" where
  "kfInv kfs = (sorted (map frame kfs) \<and> distinct (map frame kfs))"



text \<open>The keyframe that \<open>toggleKeyframe\<close> pushes.\<close>

definition newKeyframe :: "State \<Rightarrow> Keyframe" where
  "newKeyframe st =
     (let c = getInterpolatedColor (selectedFrame st) (colors st ! nat (selectedColorIndex st))
      in \<lparr> r = r c, g = g c, b = b c, a = a c, frame = selectedFrame st \<rparr>)"


section \<open>Interpolation, as the format describes it\<close>

text \<open>The exact interpolant of one channel.\<close>

definition exactChannel :: "int \<Rightarrow> int \<Rightarrow> int \<Rightarrow> int \<Rightarrow> rat" where
  "exactChannel p n k d = of_int p + of_int (n - p) * of_int k / of_int d"

text \<open>\<open>c\<close> is \<open>Math.round\<close> of the exact value \<open>x\<close>, or one below it when \<open>x\<close> is a tie
  (an integer plus one half).\<close>

definition roundsTo :: "int \<Rightarrow> rat \<Rightarrow> bool" where
  "roundsTo c x = (c = mathRound x \<or> (c = mathRound x - 1 \<and> of_int (mathRound x) = x + 1 / 2))"

text \<open>The conditions of the bound: channels are bytes, the gap between the two frames is at
  most \<open>2 ^ 42\<close>.\<close>

definition byteColor :: "'z RGBA_scheme \<Rightarrow> bool" where
  "byteColor c = (0 \<le> r c \<and> r c \<le> 255 \<and> 0 \<le> g c \<and> g c \<le> 255
                \<and> 0 \<le> b c \<and> b c \<le> 255 \<and> 0 \<le> a c \<and> a c \<le> 255)"

text \<open>The body of \<open>getInterpolatedColor\<close> once the two keys are known.\<close>

definition betweenKeys :: "int \<Rightarrow> Keyframe \<Rightarrow> Keyframe \<Rightarrow> RGBA" where
  "betweenKeys fr prevKey nextKey =
     (if frame nextKey - frame prevKey = 0 then baseColor prevKey
      else (let factor = fl (of_int (fr - frame prevKey) / of_int (frame nextKey - frame prevKey))
            in \<lparr> r = lerpChannel (r prevKey) (r nextKey) factor,
                 g = lerpChannel (g prevKey) (g nextKey) factor,
                 b = lerpChannel (b prevKey) (b nextKey) factor,
                 a = lerpChannel (a prevKey) (a nextKey) factor \<rparr>))"

section \<open>Sample documents and states\<close>


definition emptyState :: State where
  "emptyState = \<lparr> paletteData = None, colors = [], selectedColorIndex = - 1, selectedFrame = 0,
                   endFrame = 100 \<rparr>"


definition twoColors :: State where
  \<open>twoColors = \<lparr> paletteData = None,
      colors = [\<lparr> r = 255, g = 255, b = 255, a = 0, hasTrace = False, id_str = ''"p-0"'',
                  name = ''bg'', tagID = ''3'', role = none, originalIndex = 0,
                  keyframes = Some [] \<rparr>,
                \<lparr> r = 10, g = 20, b = 30, a = 255, hasTrace = False, id_str = ''"p-7"'',
                  name = ''skin'', tagID = ''3'', role = none, originalIndex = 1,
                  keyframes = Some [\<lparr> r = 1, g = 2, b = 3, a = 4, frame = 0 \<rparr>,
                                    \<lparr> r = 9, g = 8, b = 7, a = 6, frame = 10 \<rparr>] \<rparr>],
      selectedColorIndex = 1, selectedFrame = 4, endFrame = 100 \<rparr>\<close>

definition rampStart :: Keyframe where
  "rampStart = \<lparr> r = 0, g = 0, b = 0, a = 255, frame = 0 \<rparr>"

definition rampEnd :: Keyframe where
  "rampEnd = \<lparr> r = 45, g = 90, b = 100, a = 255, frame = 10 \<rparr>"

definition ramp :: ColorEntry where
  \<open>ramp = \<lparr> r = 9, g = 9, b = 9, a = 9, hasTrace = False, id_str = ''"p-2"'', name = ''ramp'',
             tagID = ''3'', role = none, originalIndex = 2,
             keyframes = Some [rampStart, rampEnd] \<rparr>\<close>

section \<open>Numerals and the record grammars\<close>

lemma isDigit_iff:
  "isDigit c \<longleftrightarrow> c = CHR ''0'' \<or> c = CHR ''1'' \<or> c = CHR ''2'' \<or> c = CHR ''3'' \<or> c = CHR ''4''
     \<or> c = CHR ''5'' \<or> c = CHR ''6'' \<or> c = CHR ''7'' \<or> c = CHR ''8'' \<or> c = CHR ''9''"
  by (simp add: isDigit_def)

lemma isDigit_cases:
  assumes "isDigit c"
  shows "\<not> isSpace c \<and> c \<noteq> CHR ''-'' \<and> c \<noteq> CHR ''+'' \<and> c \<noteq> CHR ''x'' \<and> c \<noteq> CHR ''X''
     \<and> c \<noteq> dquote \<and> isRadixDigit 10 c"
  using assms unfolding isDigit_iff
  by (elim disjE) (simp_all add: isSpace_def isRadixDigit_def digitVal_def dquote_def)

lemma takeWhile_all: "list_all P xs \<Longrightarrow> takeWhile P xs = xs"
  by (induction xs) auto

lemma parseInt_numeral:
  assumes "isNumeral ds"
  shows "parseInt ds = Some (int (digitsValue 10 0 ds))"
proof -
  from assms obtain c cs where ds: "ds = c # cs" and c: "isDigit c" and cs: "list_all isDigit cs"
    by (cases ds) (auto simp: isNumeral_def)
  have f1: "dropWhile isSpace ds = ds" using ds isDigit_cases [OF c] by simp
  have f2: "(case ds of [] \<Rightarrow> False | c # x \<Rightarrow> c = CHR ''-'') = False"
    using ds isDigit_cases [OF c] by simp
  have f3: "(case ds of [] \<Rightarrow> ds | c # cs \<Rightarrow> if c = CHR ''-'' \<or> c = CHR ''+'' then cs else ds) = ds"
    using ds isDigit_cases [OF c] by simp
  have f4: "take 2 ds \<noteq> ''0x''" "take 2 ds \<noteq> ''0X''"
    using ds cs isDigit_cases by (cases cs; auto)+
  have "list_all (isRadixDigit 10) ds"
    using assms isDigit_cases by (auto simp: isNumeral_def list_all_iff)
  then have f5: "takeWhile (isRadixDigit 10) ds = ds" by (rule takeWhile_all)
  have f6: "ds \<noteq> []" using ds by simp
  show ?thesis
    unfolding parseInt_def parseIntRadix_def Let_def f1 f2 f3
    using f4 f6 by (simp add: f5)
qed

lemma list_all_takeWhile: "list_all P (takeWhile P xs)"
  by (induction xs) auto

lemma wsDigits_Some:
  assumes "wsDigits s = Some (ds, rest)"
  shows "\<exists>c cs. s = c # cs \<and> isSpace c \<and> ds = takeWhile isDigit (dropWhile isSpace cs)
           \<and> rest = dropWhile isDigit (dropWhile isSpace cs) \<and> ds \<noteq> []"
proof (cases s)
  case Nil
  with assms show ?thesis by (simp add: wsDigits_def)
next
  case (Cons c cs)
  with assms show ?thesis
    by (auto simp: wsDigits_def Let_def split: if_splits)
qed

lemma wsDigits_numeral: "wsDigits s = Some (ds, rest) \<Longrightarrow> isNumeral ds"
  using wsDigits_Some [of s ds rest] list_all_takeWhile [of isDigit]
  by (auto simp: isNumeral_def)

lemma fiveNumbers_numeral:
  assumes "fiveNumbers s = Some (t, cr, cg, cb, ca)"
  shows "isNumeral t \<and> isNumeral cr \<and> isNumeral cg \<and> isNumeral cb \<and> isNumeral ca"
proof -
  from assms obtain s1 s2 s3 s4 s5 where
    "wsDigits s = Some (t, s1)" "wsDigits s1 = Some (cr, s2)" "wsDigits s2 = Some (cg, s3)"
    "wsDigits s3 = Some (cb, s4)" "wsDigits s4 = Some (ca, s5)"
    unfolding fiveNumbers_def by (auto split: option.splits)
  then show ?thesis by (simp add: wsDigits_numeral)
qed

lemma studioBody_Some:
  assumes "studioBody tr' s = Some (tr, i, rawName, t, cr, cg, cb, ca)"
  shows "\<exists>s1 s2. tr = tr' \<and> quotedId s = Some (i, s1) \<and> nonSpaces s1 = Some (rawName, s2)
           \<and> fiveNumbers s2 = Some (t, cr, cg, cb, ca)"
  using assms unfolding studioBody_def by (auto split: option.splits)

lemma levelBody_Some:
  assumes "levelBody tr' s = Some (tr, i, rawName, t, cr, cg, cb, ca)"
  shows "\<exists>s2. tr = tr' \<and> i = [] \<and> nonSpaces s = Some (rawName, s2)
           \<and> fiveNumbers s2 = Some (t, cr, cg, cb, ca)"
  using assms unfolding levelBody_def by (auto split: option.splits)

lemma withOptionalTrace_Some:
  assumes "withOptionalTrace body s = Some m"
  shows "(\<exists>s1. traceToken (dropWhile isSpace s) = Some s1 \<and> body True s1 = Some m)
       \<or> body False (dropWhile isSpace s) = Some m"
  using assms unfolding withOptionalTrace_def Let_def by (auto split: option.splits)

lemma matchRecord_numeral:
  assumes "matchRecord isStudio content = Some (tr, i, rawName, t, cr, cg, cb, ca)"
  shows "isNumeral t \<and> isNumeral cr \<and> isNumeral cg \<and> isNumeral cb \<and> isNumeral ca"
proof -
  have "\<exists>s2. fiveNumbers s2 = Some (t, cr, cg, cb, ca)"
  proof (cases isStudio)
    case True
    with assms have "withOptionalTrace studioBody content = Some (tr, i, rawName, t, cr, cg, cb, ca)"
      by (simp add: matchRecord_def matchStudio_def)
    from withOptionalTrace_Some [OF this] show ?thesis
      using studioBody_Some by blast
  next
    case False
    with assms have "withOptionalTrace levelBody content = Some (tr, i, rawName, t, cr, cg, cb, ca)"
      by (simp add: matchRecord_def matchLevel_def)
    from withOptionalTrace_Some [OF this] show ?thesis
      using levelBody_Some by blast
  qed
  then show ?thesis using fiveNumbers_numeral by blast
qed

lemma parseStyle_None:
  "matchRecord isStudio (trim style) = None \<Longrightarrow> parseStyle isStudio index style = None"
  by (simp add: parseStyle_def)

lemma parseStyle_Some:
  assumes "matchRecord isStudio (trim style) = Some (tr, i, rawName, t, cr, cg, cb, ca)"
  shows "parseStyle isStudio index style =
           Some \<lparr> r = int (digitsValue 10 0 cr), g = int (digitsValue 10 0 cg),
                  b = int (digitsValue 10 0 cb), a = int (digitsValue 10 0 ca), hasTrace = tr,
                  id_str = (if isStudio then i else dquote # showInt (int index) @ [dquote]),
                  name = snd (decodeRole ROLES rawName), tagID = t,
                  role = fst (decodeRole ROLES rawName),
                  originalIndex = index, keyframes = Some [] \<rparr>"
  using assms matchRecord_numeral [OF assms]
  by (simp add: parseStyle_def case_prod_beta parseInt_numeral)

lemma parseStyle_None_iff:
  "parseStyle isStudio index style = None \<longleftrightarrow> matchRecord isStudio (trim style) = None"
proof (cases "matchRecord isStudio (trim style)")
  case None
  then show ?thesis by (simp add: parseStyle_None)
next
  case (Some m)
  obtain tr i rawName t cr cg cb ca where "m = (tr, i, rawName, t, cr, cg, cb, ca)"
    by (cases m) auto
  with Some show ?thesis by (simp add: parseStyle_Some)
qed

lemma parseStyle_fields:
  "parseStyle isStudio index style = Some e \<Longrightarrow> originalIndex e = index \<and> keyframes e = Some []"
proof (cases "matchRecord isStudio (trim style)")
  case None
  assume "parseStyle isStudio index style = Some e"
  with None show ?thesis by (simp add: parseStyle_None)
next
  case (Some m)
  assume e: "parseStyle isStudio index style = Some e"
  obtain tr i rawName t cr cg cb ca where "m = (tr, i, rawName, t, cr, cg, cb, ca)"
    by (cases m) auto
  with Some e show ?thesis by (auto simp add: parseStyle_Some)
qed

section \<open>Role suffixes\<close>

lemma endsWith_append: "endsWith (xs @ suf) suf"
  by (simp add: endsWith_def)

lemma endsWith_append_same_length:
  "length s1 = length s2 \<Longrightarrow> endsWith (xs @ s1) s2 \<longleftrightarrow> s1 = s2"
  by (auto simp: endsWith_def)

lemma suffixOf_simps:
  "suffixOf none = []" "suffixOf shadow = ''_sh''"
  "suffixOf highlight = ''_hl''" "suffixOf ao = ''_ao''"
  by (simp_all add: suffixOf_def ROLES_def)


text \<open>
  Claim C5.  For every role \<open>R\<close> with its suffix (none: empty, shadow: \<open>_sh\<close>, highlight:
  \<open>_hl\<close>, ao: \<open>_ao\<close>) and every base name that ends in none of the three suffixes, the
  role loop of \<open>parseStyles\<close> decodes \<open>baseName + suffix\<close> to \<open>(R, baseName)\<close>,
  \<open>getFullExportName\<close> of an entry with that name and role gives \<open>baseName + suffix\<close>,
  and decoding the exported name gives the pair back.
\<close>

theorem role_suffix_roundtrip:
  assumes "\<not> endsWith baseName ''_sh''" and "\<not> endsWith baseName ''_hl''"
    and "\<not> endsWith baseName ''_ao''"
  shows "suffixOf none = [] \<and> suffixOf shadow = ''_sh'' \<and> suffixOf highlight = ''_hl''
       \<and> suffixOf ao = ''_ao''
       \<and> decodeRole ROLES (baseName @ suffixOf R) = (R, baseName)
       \<and> getFullExportName (c\<lparr> name := baseName, role := R \<rparr>) = baseName @ suffixOf R
       \<and> decodeRole ROLES (getFullExportName (c\<lparr> name := baseName, role := R \<rparr>))
           = (R, baseName)"
proof -
  have dec: "decodeRole ROLES (baseName @ suffixOf R) = (R, baseName)"
    using assms
    by (cases R) (simp_all add: ROLES_def suffixOf_simps endsWith_append endsWith_append_same_length)
  have enc: "getFullExportName (c\<lparr> name := baseName, role := R \<rparr>) = baseName @ suffixOf R"
    by (simp add: getFullExportName_def)
  show ?thesis using dec enc by (simp add: suffixOf_simps)
qed

theorem role_suffix_roundtrip_witness:
  "\<not> endsWith ''skin'' ''_sh'' \<and> \<not> endsWith ''skin'' ''_hl'' \<and> \<not> endsWith ''skin'' ''_ao''
   \<and> decodeRole ROLES (''skin'' @ suffixOf shadow) = (shadow, ''skin'')
   \<and> getFullExportName
        (\<lparr> r = 0, g = 0, b = 0, a = 0, hasTrace = False, id_str = [], name = ''x'',
           tagID = [], role = none, originalIndex = 0, keyframes = None \<rparr>
         \<lparr> name := ''skin'', role := shadow \<rparr>) = ''skin_sh''"
  using role_suffix_roundtrip [where baseName = "''skin''" and R = shadow
      and c = "\<lparr> r = 0, g = 0, b = 0, a = 0, hasTrace = False, id_str = [], name = ''x'',
                 tagID = [], role = none, originalIndex = 0, keyframes = None \<rparr>"]
  by (simp add: endsWith_def suffixOf_simps)

section \<open>parseStyles: one entry for each record that matches\<close>

lemma parseStylesFrom_eq:
  "parseStylesFrom isStudio k styles (cols, ws) =
     (cols @ List.map_filter (\<lambda>(i, s). parseStyle isStudio i s) (enumerate k styles),
      ws @ map trim (filter (\<lambda>s. matchRecord isStudio (trim s) = None) styles))"
proof (induction styles arbitrary: k cols ws)
  case Nil
  then show ?case by (simp add: map_filter_simps)
next
  case (Cons style rest)
  show ?case
  proof (cases "parseStyle isStudio k style")
    case None
    then have "matchRecord isStudio (trim style) = None" by (simp add: parseStyle_None_iff)
    with None Cons.IH show ?thesis by (simp add: map_filter_simps)
  next
    case (Some e)
    then have "matchRecord isStudio (trim style) \<noteq> None"
      using parseStyle_None_iff [of isStudio k style] by simp
    with Some Cons.IH show ?thesis by (simp add: map_filter_simps)
  qed
qed

lemma originalIndex_map_filter:
  "map originalIndex (List.map_filter (\<lambda>(i, s). parseStyle isStudio i s) xs) =
     map fst (filter (\<lambda>(i, s). matchRecord isStudio (trim s) \<noteq> None) xs)"
proof (induction xs)
  case Nil
  then show ?case by (simp add: map_filter_simps)
next
  case (Cons x xs)
  obtain i s where x: "x = (i, s)" by (cases x)
  show ?case
  proof (cases "parseStyle isStudio i s")
    case None
    then have "matchRecord isStudio (trim s) = None" by (simp add: parseStyle_None_iff)
    with None Cons.IH x show ?thesis by (simp add: map_filter_simps)
  next
    case (Some e)
    then have "matchRecord isStudio (trim s) \<noteq> None"
      using parseStyle_None_iff [of isStudio i s] by simp
    with Some Cons.IH x parseStyle_fields [OF Some] show ?thesis by (simp add: map_filter_simps)
  qed
qed

lemma length_map_filter_split:
  "length (List.map_filter (\<lambda>(i, s). parseStyle isStudio i s) (enumerate k styles))
     + length (filter (\<lambda>s. matchRecord isStudio (trim s) = None) styles) = length styles"
proof (induction styles arbitrary: k)
  case Nil
  then show ?case by (simp add: map_filter_simps)
next
  case (Cons style rest)
  show ?case
    using Cons.IH [of "Suc k"] parseStyle_None_iff [of isStudio k style]
    by (cases "parseStyle isStudio k style") (simp_all add: map_filter_simps)
qed

text \<open>
  Claim C4.  \<open>parseStyles\<close> gives one entry for each record that its dialect's expression
  matches, in document order, carrying the position of the record as \<open>originalIndex\<close>;
  a record that does not match gives no entry and one warning (its trimmed text), and the
  loop goes on with the records after it: entries and warnings together are as many as
  the records.
\<close>

theorem parseStyles_skips_malformed:
  "fst (parseStyles isStudio styles)
     = List.map_filter (\<lambda>(i, s). parseStyle isStudio i s) (enumerate 0 styles)
   \<and> snd (parseStyles isStudio styles)
     = map trim (filter (\<lambda>s. matchRecord isStudio (trim s) = None) styles)
   \<and> map originalIndex (fst (parseStyles isStudio styles))
     = map fst (filter (\<lambda>(i, s). matchRecord isStudio (trim s) \<noteq> None) (enumerate 0 styles))
   \<and> (parseStyle isStudio index style = None) = (matchRecord isStudio (trim style) = None)
   \<and> length (fst (parseStyles isStudio styles)) + length (snd (parseStyles isStudio styles))
     = length styles"
  by (simp add: parseStyles_def parseStylesFrom_eq originalIndex_map_filter
      parseStyle_None_iff length_map_filter_split)

text \<open>The scenario of the claim: a well-formed record and a record with three channels.\<close>

lemma malformed_scenario:
  \<open>parseStyles True [''"p-0"bg 3 255 255 255 0'', ''"p-1"ink 3 0 0 0''] =
     ([\<lparr> r = 255, g = 255, b = 255, a = 0, hasTrace = False,
         id_str = ''"p-0"'', name = ''bg'', tagID = ''3'', role = none,
         originalIndex = 0, keyframes = Some [] \<rparr>], [''"p-1"ink 3 0 0 0''])\<close>
  by code_simp

theorem parseStyles_skips_malformed_witness:
  \<open>length (fst (parseStyles True [''"p-0"bg 3 255 255 255 0'', ''"p-1"ink 3 0 0 0''])) = 1
   \<and> snd (parseStyles True [''"p-0"bg 3 255 255 255 0'', ''"p-1"ink 3 0 0 0''])
       = [''"p-1"ink 3 0 0 0'']
   \<and> parseStyle True 1 ''"p-1"ink 3 0 0 0'' = None\<close>
proof -
  note t = parseStyles_skips_malformed
    [of True \<open>[''"p-0"bg 3 255 255 255 0'', ''"p-1"ink 3 0 0 0'']\<close> 1 \<open>''"p-1"ink 3 0 0 0''\<close>]
  have m: \<open>matchRecord True (trim ''"p-1"ink 3 0 0 0'') = None\<close>
    by code_simp
  have c: \<open>parseStyle True 1 ''"p-1"ink 3 0 0 0'' = None\<close>
    using t [THEN conjunct2, THEN conjunct2, THEN conjunct2, THEN conjunct1] m by (rule iffD2)
  have a: \<open>length (fst (parseStyles True [''"p-0"bg 3 255 255 255 0'', ''"p-1"ink 3 0 0 0''])) = 1
      \<and> snd (parseStyles True [''"p-0"bg 3 255 255 255 0'', ''"p-1"ink 3 0 0 0''])
          = [''"p-1"ink 3 0 0 0'']\<close>
    unfolding malformed_scenario by simp
  show ?thesis
    by (rule conjI [OF a [THEN conjunct1] conjI [OF a [THEN conjunct2] c]])
qed

section \<open>Parse, then export: the studio record body\<close>

lemma isDigit_digitVal:
  assumes "isDigit c"
  shows "\<exists>d<10. digitVal c = Some d \<and> digitChar d = c \<and> (d = 0 \<longleftrightarrow> c = CHR ''0'')"
  using assms unfolding isDigit_iff
  by (elim disjE) (simp_all add: digitVal_def digitChar_def)

lemma digitsValue_snoc:
  "digitsValue R acc (xs @ [c]) =
     digitsValue R acc xs * R + (case digitVal c of None \<Rightarrow> 0 | Some v \<Rightarrow> v)"
  by (induction xs arbitrary: acc) simp_all

lemma digitsValue_ge_acc: "acc \<le> digitsValue 10 acc xs"
proof (induction xs arbitrary: acc)
  case Nil
  then show ?case by simp
next
  case (Cons c cs)
  have "acc \<le> acc * 10 + (case digitVal c of None \<Rightarrow> 0 | Some v \<Rightarrow> v)" by simp
  also have "\<dots> \<le> digitsValue 10 (acc * 10 + (case digitVal c of None \<Rightarrow> 0 | Some v \<Rightarrow> v)) cs"
    by (rule Cons.IH)
  finally show ?case by simp
qed

lemma digitsValue_pos:
  assumes "isDigit c" and "c \<noteq> CHR ''0''"
  shows "0 < digitsValue 10 0 (c # cs)"
proof -
  from isDigit_digitVal [OF assms(1)] assms(2)
  obtain d where d: "digitVal c = Some d" "0 < d" by auto
  have "d \<le> digitsValue 10 d cs" by (rule digitsValue_ge_acc)
  with d show ?thesis by simp
qed

lemma showNat_digitsValue:
  assumes "canonical ds"
  shows "showNat (digitsValue 10 0 ds) = ds"
  using assms
proof (induction ds rule: rev_induct)
  case Nil
  then show ?case by (simp add: canonical_def isNumeral_def)
next
  case (snoc c ds)
  from snoc.prems have c: "isDigit c" and dsd: "list_all isDigit ds"
    by (simp_all add: canonical_def isNumeral_def)
  from isDigit_digitVal [OF c] obtain d where d: "d < 10" "digitVal c = Some d" "digitChar d = c"
    by blast
  show ?case
  proof (cases ds)
    case Nil
    with d show ?thesis by (simp add: showNat.simps)
  next
    case (Cons x xs)
    with snoc.prems have x0: "x \<noteq> CHR ''0''" by (simp add: canonical_def)
    from Cons dsd have xd: "isDigit x" by simp
    have can: "canonical ds" using Cons x0 dsd by (simp add: canonical_def isNumeral_def)
    have pos: "0 < digitsValue 10 0 ds" using digitsValue_pos [OF xd x0] Cons by simp
    have val: "digitsValue 10 0 (ds @ [c]) = digitsValue 10 0 ds * 10 + d"
      by (simp add: digitsValue_snoc d)
    have "showNat (digitsValue 10 0 ds * 10 + d)
            = showNat ((digitsValue 10 0 ds * 10 + d) div 10)
              @ [digitChar ((digitsValue 10 0 ds * 10 + d) mod 10)]"
      using pos by (subst showNat.simps) simp
    also have "\<dots> = showNat (digitsValue 10 0 ds) @ [digitChar d]"
      using d(1) by simp
    also have "\<dots> = ds @ [c]" using snoc.IH [OF can] d(3) by simp
    finally show ?thesis using val by simp
  qed
qed

lemma showInt_parseInt:
  assumes "canonical ds"
  shows "\<exists>v. parseInt ds = Some v \<and> showInt v = ds"
  using assms showNat_digitsValue [OF assms]
  by (simp add: canonical_def parseInt_numeral showInt_def)



















text \<open>The scenario of the claim: the two records \<open>bg\<close> and \<open>ink\<close>.\<close>

lemma studio_scenario:
  \<open>parseStyles True [''"p-0"bg 3 255 255 255 0'', ''"p-1"ink 3 0 0 0 255''] =
     ([\<lparr> r = 255, g = 255, b = 255, a = 0, hasTrace = False,
         id_str = ''"p-0"'', name = ''bg'', tagID = ''3'', role = none,
         originalIndex = 0, keyframes = Some [] \<rparr>,
       \<lparr> r = 0, g = 0, b = 0, a = 255, hasTrace = False,
         id_str = ''"p-1"'', name = ''ink'', tagID = ''3'', role = none,
         originalIndex = 1, keyframes = Some [] \<rparr>], [])
   \<and> map (styleContent True)
         (fst (parseStyles True [''"p-0"bg 3 255 255 255 0'', ''"p-1"ink 3 0 0 0 255'']))
       = [''"p-0"bg 3 255 255 255 0'', ''"p-1"ink 3 0 0 0 255'']\<close>
  by code_simp



section \<open>The root tag of a loaded studio palette\<close>




lemma newPalette_prefix:
  "truthy answer \<Longrightarrow>
   \<exists>pd. paletteData (newPalette answer seconds rnd st) = Some pd \<and> isStudioPalette pd
        \<and> prefix pd = Some (generatePalettePrefix seconds rnd)"
  by (simp add: newPalette_def Let_def)




section \<open>addColor\<close>

lemma split_no_sep: "sep \<notin> set ys \<Longrightarrow> split sep ys = [ys]"
  by (induction ys) auto

lemma split_nonempty: "split sep xs \<noteq> []"
  by (induction xs) (auto split: list.splits)

lemma last_split_append:
  "last (split sep (xs @ sep # ys)) = last (split sep ys)"
proof (induction xs)
  case Nil
  then show ?case by (simp add: split_nonempty)
next
  case (Cons x xs)
  show ?case
  proof (cases "x = sep")
    case True
    then show ?thesis using Cons by (simp add: split_nonempty)
  next
    case False
    obtain p ps where ps: "split sep (xs @ sep # ys) = p # ps"
      using split_nonempty [of sep "xs @ sep # ys"] by (cases "split sep (xs @ sep # ys)") auto
    have "ps \<noteq> []"
    proof
      assume "ps = []"
      with ps have "length (split sep (xs @ sep # ys)) = 1" by simp
      moreover have "\<And>zs. sep \<in> set zs \<Longrightarrow> 2 \<le> length (split sep zs)"
      proof -
        fix zs show "sep \<in> set zs \<Longrightarrow> 2 \<le> length (split sep zs)"
        proof (induction zs)
          case Nil then show ?case by simp
        next
          case (Cons z zs)
          then show ?case
            using split_nonempty [of sep zs]
            by (cases "split sep zs") (auto split: list.splits)
        qed
      qed
      then have "2 \<le> length (split sep (xs @ sep # ys))" by simp
      ultimately show False by simp
    qed
    with False ps Cons show ?thesis by simp
  qed
qed

lemma last_split_no_sep:
  "sep \<notin> set (last (split sep xs))"
proof (induction xs)
  case Nil
  then show ?case by simp
next
  case (Cons x xs)
  obtain p ps where ps: "split sep xs = p # ps"
    using split_nonempty [of sep xs] by (cases "split sep xs") auto
  show ?case
  proof (cases "x = sep")
    case True
    then show ?thesis using Cons by (simp add: split_nonempty)
  next
    case False
    then show ?thesis using Cons ps by (cases ps) auto
  qed
qed

lemma getShortId_no_dash: "CHR ''-'' \<notin> set (getShortId s)"
  by (simp add: getShortId_def Let_def last_split_no_sep)

lemma parseInt_nonneg:
  assumes "parseInt s = Some v" and "CHR ''-'' \<notin> set s"
  shows "0 \<le> v"
proof -
  have neg: "(case dropWhile isSpace s of [] \<Rightarrow> False | c # x \<Rightarrow> c = CHR ''-'') = False"
  proof (cases "dropWhile isSpace s")
    case Nil
    then show ?thesis by (simp only: list.case)
  next
    case (Cons c cs)
    then have "c \<in> set (dropWhile isSpace s)" by simp
    then have "c \<in> set s" by (rule set_dropWhileD)
    with assms(2) have "c \<noteq> CHR ''-''" by auto
    with Cons show ?thesis by (simp only: list.case)
  qed
  from assms(1) show ?thesis
    unfolding parseInt_def parseIntRadix_def Let_def neg
    by (auto split: if_splits)
qed

lemma showNat_digits: "list_all isDigit (showNat n)"
proof (induction n rule: showNat.induct)
  case (1 n)
  have d: "\<And>k. k < 10 \<Longrightarrow> isDigit (digitChar k)"
  proof -
    fix k :: nat assume "k < 10"
    then have "k \<in> {0, 1, 2, 3, 4, 5, 6, 7, 8, 9}" by auto
    then show "isDigit (digitChar k)" by (auto simp: digitChar_def isDigit_def)
  qed
  show ?case
  proof (cases "n < 10")
    case True
    then show ?thesis using d by (subst showNat.simps) simp
  next
    case False
    then show ?thesis using 1 d [of "n mod 10"] by (subst showNat.simps) simp
  qed
qed

lemma showInt_nonneg_digits:
  "0 \<le> v \<Longrightarrow> list_all isDigit (showInt v)"
  by (simp add: showInt_def showNat_digits)

lemma maxOf_Max:
  assumes "ids \<noteq> []"
  shows "maxOf ids = Max (set ids)"
proof -
  from assms obtain x xs where ids: "ids = x # xs" by (cases ids) auto
  have "maxOf ids = fold max xs x" by (simp add: maxOf_def ids)
  also have "\<dots> = Max (set (x # xs))" by (rule Max.set_eq_fold [symmetric])
  finally show ?thesis by (simp only: ids)
qed

lemma addColor_nextId_eq:
  "addColor_nextId cols =
     (if List.map_filter (\<lambda>c. parseInt (getShortId (id_str c))) cols = [] then 1
      else Max (set (List.map_filter (\<lambda>c. parseInt (getShortId (id_str c))) cols)) + 1)"
  by (simp add: addColor_nextId_def Let_def maxOf_Max)

lemma addColor_nextId_pos: "0 < addColor_nextId cols"
proof (cases "List.map_filter (\<lambda>c. parseInt (getShortId (id_str c))) cols = []")
  case True
  then show ?thesis by (simp add: addColor_nextId_eq)
next
  case False
  let ?ids = "List.map_filter (\<lambda>c. parseInt (getShortId (id_str c))) cols"
  have "\<forall>v \<in> set ?ids. 0 \<le> v"
    by (auto simp: map_filter_def intro: parseInt_nonneg [OF _ getShortId_no_dash])
  moreover have "Max (set ?ids) \<in> set ?ids" using False by (intro Max_in) simp_all
  ultimately have "0 \<le> Max (set ?ids)" by blast
  with False show ?thesis by (simp add: addColor_nextId_eq)
qed

lemma addColor_prefix_shape:
  "filter (\<lambda>c. c \<noteq> dquote) (addColor_prefix st) = []
   \<or> (\<exists>xs. filter (\<lambda>c. c \<noteq> dquote) (addColor_prefix st) = xs @ ''-'')"
  by (auto simp: addColor_prefix_def Let_def dquote_def split: option.splits)

lemma getShortId_new:
  assumes "0 < n"
  shows "getShortId (dquote # addColor_prefix st @ showInt n @ [dquote]) = showInt n"
proof -
  have dig: "list_all isDigit (showInt n)" using assms by (simp add: showInt_nonneg_digits)
  then have nq: "filter (\<lambda>c. c \<noteq> dquote) (showInt n) = showInt n"
    using isDigit_cases by (auto simp: list_all_iff filter_id_conv)
  have nd: "CHR ''-'' \<notin> set (showInt n)"
    using dig isDigit_cases by (auto simp: list_all_iff)
  have clean: "filter (\<lambda>c. c \<noteq> dquote) (dquote # addColor_prefix st @ showInt n @ [dquote])
                 = filter (\<lambda>c. c \<noteq> dquote) (addColor_prefix st) @ showInt n"
    by (simp add: nq)
  from addColor_prefix_shape [of st] show ?thesis
  proof
    assume "filter (\<lambda>c. c \<noteq> dquote) (addColor_prefix st) = []"
    then show ?thesis
      unfolding getShortId_def Let_def clean by (simp add: split_no_sep [OF nd])
  next
    assume "\<exists>xs. filter (\<lambda>c. c \<noteq> dquote) (addColor_prefix st) = xs @ ''-''"
    then obtain xs where "filter (\<lambda>c. c \<noteq> dquote) (addColor_prefix st) = xs @ ''-''" ..
    then show ?thesis
      unfolding getShortId_def Let_def clean
      by (simp add: last_split_append split_no_sep [OF nd])
  qed
qed

lemma renderTimeline_selected:
  assumes "0 \<le> selectedColorIndex st" and "nat (selectedColorIndex st) < length (colors st)"
    and "keyframes (colors st ! nat (selectedColorIndex st)) = Some kfs"
  shows "renderTimeline st = None"
  using assms by (simp add: renderTimeline_def)

lemma selectColor_new:
  assumes "keyframes entry = Some []"
  shows "selectColor (length cols) True (st\<lparr> colors := cols @ [entry] \<rparr>)
           = (st\<lparr> colors := cols @ [entry], selectedColorIndex := int (length cols),
                  selectedFrame := 0, endFrame := 100 \<rparr>, None)"
  using assms by (simp add: selectColor_def Let_def renderTimeline_def)

lemma addColor_result:
  assumes "selectedColorIndex st < int (length (colors st))"
  shows "\<exists>entry.
           addColor st = (st\<lparr> colors := colors st @ [entry],
                              selectedColorIndex := int (length (colors st)),
                              selectedFrame := 0, endFrame := 100 \<rparr>, None)
         \<and> getShortId (id_str entry)
             = showInt (if List.map_filter (\<lambda>c. parseInt (getShortId (id_str c))) (colors st) = []
                        then 1
                        else Max (set (List.map_filter (\<lambda>c. parseInt (getShortId (id_str c)))
                                         (colors st))) + 1)
         \<and> keyframes entry = Some [] \<and> role entry = none \<and> \<not> hasTrace entry
         \<and> originalIndex entry = length (colors st)
         \<and> baseColor entry
             = (if 0 \<le> selectedColorIndex st
                then getInterpolatedColor 0 (colors st ! nat (selectedColorIndex st))
                else \<lparr> r = 120, g = 120, b = 120, a = 255 \<rparr>)"
proof -
  define c where "c = (if 0 \<le> selectedColorIndex st
                then getInterpolatedColor 0 (colors st ! nat (selectedColorIndex st))
                else \<lparr> r = 120, g = 120, b = 120, a = 255 \<rparr>)"
  have src: "addColor_source st = Some c"
    using assms by (simp add: addColor_source_def c_def) arith
  define entry where "entry = \<lparr> r = r c, g = g c, b = b c, a = a c, hasTrace = False,
      id_str = dquote # addColor_prefix st @ showInt (addColor_nextId (colors st)) @ [dquote],
      name = ''new_color'', tagID = ''3'', role = none,
      originalIndex = length (colors st), keyframes = Some [] \<rparr>"
  have k: "keyframes entry = Some []" by (simp add: entry_def)
  have eq: "addColor st = (st\<lparr> colors := colors st @ [entry],
                              selectedColorIndex := int (length (colors st)),
                              selectedFrame := 0, endFrame := 100 \<rparr>, None)"
    unfolding addColor_def Let_def src option.case
    using selectColor_new [OF k, of "colors st" st] by (simp add: entry_def)
  have sid: "getShortId (id_str entry) = showInt (addColor_nextId (colors st))"
    using getShortId_new [OF addColor_nextId_pos, of st "colors st"] by (simp add: entry_def)
  have bc: "baseColor entry = c" by (simp add: entry_def baseColor_def)
  show ?thesis
    using eq sid bc
    by (intro exI [of _ entry]) (simp add: addColor_nextId_eq [symmetric] c_def [symmetric] entry_def)
qed





section \<open>The seed entries of newPalette\<close>

lemma toggleKeyframe_no_keyframes:
  assumes "0 \<le> selectedColorIndex st" and "nat (selectedColorIndex st) < length (colors st)"
    and "keyframes (colors st ! nat (selectedColorIndex st)) = None"
  shows "toggleKeyframe st = (st, Some TypeError)"
  using assms by (simp add: toggleKeyframe_def Let_def)

lemma newPalette_colors:
  assumes "truthy answer"
  shows "length (colors (newPalette answer seconds rnd st)) = 2
       \<and> keyframes (colors (newPalette answer seconds rnd st) ! 0) = None
       \<and> keyframes (colors (newPalette answer seconds rnd st) ! 1) = None"
  using assms by (simp add: newPalette_def Let_def)

lemma parseStyles_fst:
  "fst (parseStyles isStudio styles)
     = List.map_filter (\<lambda>(i, s). parseStyle isStudio i s) (enumerate 0 styles)"
  by (simp add: parseStyles_def parseStylesFrom_eq)

lemma parseStyles_keyframes:
  "list_all (\<lambda>e. keyframes e = Some []) (fst (parseStyles isStudio styles))"
  unfolding list_all_iff
  by (auto simp: parseStyles_fst map_filter_def dest: parseStyle_fields)

lemma addColor_keyframes:
  assumes "selectedColorIndex st < int (length (colors st))"
  shows "keyframes (last (colors (fst (addColor st)))) = Some []"
  using addColor_result [OF assms] by auto

text \<open>
  Claim C10.  \<open>toggleKeyframe\<close> reads \<open>color.keyframes.findIndex\<close> without a guard.  The
  entries that \<open>parseStyles\<close> and \<open>addColor\<close> make carry an (empty) keyframes array, but
  the two seed entries of \<open>newPalette\<close> carry no \<open>keyframes\<close> property: with either of
  them selected, \<open>toggleKeyframe\<close> raises a TypeError and leaves the state as it was.
\<close>

theorem newPalette_seed_toggle_raises:
  assumes "truthy answer" and "i < 2"
    and "st1 = fst (selectColor i True (newPalette answer seconds rnd st))"
  shows "keyframes (colors (newPalette answer seconds rnd st) ! i) = None
       \<and> toggleKeyframe st1 = (st1, Some TypeError)
       \<and> list_all (\<lambda>e. keyframes e = Some []) (fst (parseStyles isStudio styles))
       \<and> (selectedColorIndex st2 < int (length (colors st2))
            \<longrightarrow> keyframes (last (colors (fst (addColor st2)))) = Some [])"
proof -
  from assms(2) have i: "i = 0 \<or> i = 1" by auto
  have k: "keyframes (colors (newPalette answer seconds rnd st) ! i) = None"
    using newPalette_colors [OF assms(1), of seconds rnd st] i by auto
  have c: "colors st1 = colors (newPalette answer seconds rnd st)"
    and s: "selectedColorIndex st1 = int i"
    using assms(3) by (simp_all add: selectColor_def Let_def)
  have l: "length (colors st1) = 2"
    using c newPalette_colors [OF assms(1), of seconds rnd st] by simp
  have t: "toggleKeyframe st1 = (st1, Some TypeError)"
    using s c k l assms(2) by (intro toggleKeyframe_no_keyframes) simp_all
  show ?thesis using k t parseStyles_keyframes addColor_keyframes by simp
qed

lemma seed_eval:
  \<open>fst (selectColor 1 True (newPalette (Some ''p'') 5 1000 emptyState)) =
     \<lparr> paletteData = Some \<lparr> palette_name = ''p'', version = ''71 0'',
                           shortcuts = ''0 1 -1 -1 -1 -1 -1 -1 -1 -1 '',
                           isStudioPalette = True, originalId = None, prefix = Some ''5_1000'' \<rparr>,
       colors = [\<lparr> r = 255, g = 255, b = 255, a = 0, hasTrace = False,
                   id_str = ''"|-5_1000-0"'', name = ''bg'', tagID = ''3'', role = none,
                   originalIndex = 0, keyframes = None \<rparr>,
                 \<lparr> r = 0, g = 0, b = 0, a = 255, hasTrace = False,
                   id_str = ''"|-5_1000-1"'', name = ''ink'', tagID = ''3'', role = none,
                   originalIndex = 1, keyframes = None \<rparr>],
       selectedColorIndex = 1, selectedFrame = 0, endFrame = 100 \<rparr>\<close>
  by code_simp

theorem newPalette_seed_toggle_raises_witness:
  \<open>truthy (Some ''p'') \<and> (1 :: nat) < 2
   \<and> toggleKeyframe (fst (selectColor 1 True (newPalette (Some ''p'') 5 1000 emptyState)))
       = (fst (selectColor 1 True (newPalette (Some ''p'') 5 1000 emptyState)), Some TypeError)\<close>
proof -
  have h: \<open>truthy (Some ''p'')\<close> by (simp add: truthy_def)
  have l: "(1 :: nat) < 2" by simp
  note t = newPalette_seed_toggle_raises [OF h l refl, of 5 1000 emptyState]
  show ?thesis
    by (rule conjI [OF h conjI [OF l t [THEN conjunct2, THEN conjunct1]]])
qed

section \<open>Toggling a keyframe\<close>

lemma findIndex_None_iff: "findIndex P xs = None \<longleftrightarrow> (\<forall>x \<in> set xs. \<not> P x)"
  by (induction xs) (auto split: option.splits)

lemma findIndex_Some:
  "findIndex P xs = Some i \<Longrightarrow> i < length xs \<and> P (xs ! i)"
proof (induction xs arbitrary: i)
  case Nil
  then show ?case by simp
next
  case (Cons x xs)
  then show ?case by (cases "P x") (auto split: option.splits)
qed

lemma splice1_findIndex_unique:
  "findIndex P xs = Some i \<Longrightarrow> length (filter P xs) = 1 \<Longrightarrow>
     splice1 i xs = filter (\<lambda>y. \<not> P y) xs"
proof (induction xs arbitrary: i)
  case Nil
  then show ?case by simp
next
  case (Cons x xs)
  show ?case
  proof (cases "P x")
    case True
    with Cons.prems have "filter P xs = []" and "i = 0" by simp_all
    then have "filter (\<lambda>y. \<not> P y) xs = xs" by (simp add: filter_empty_conv filter_id_conv)
    with True \<open>i = 0\<close> show ?thesis by (simp add: splice1_def)
  next
    case False
    with Cons.prems obtain j where j: "findIndex P xs = Some j" "i = Suc j"
      by (auto split: option.splits)
    from Cons.prems False have "length (filter P xs) = 1" by simp
    from Cons.IH [OF j(1) this] False j(2) show ?thesis by (simp add: splice1_def)
  qed
qed

lemma distinct_map_sort_key:
  "distinct (map f (sort_key f xs)) = distinct (map f xs)"
  by (induction xs) (simp_all add: distinct_insort_key)

lemma setKeyframes_same:
  assumes "i < length (colors st)" and "keyframes (colors st ! i) = Some kfs"
  shows "setKeyframes i kfs st = st"
proof -
  have "(colors st ! i)\<lparr> keyframes := Some kfs \<rparr> = colors st ! i"
    using assms(2) by simp
  then show ?thesis by (simp add: setKeyframes_def)
qed

lemma setKeyframes_twice:
  "i < length (colors st) \<Longrightarrow>
     setKeyframes i kfs2 (setKeyframes i kfs1 st) = setKeyframes i kfs2 st"
  by (simp add: setKeyframes_def)

lemma setKeyframes_fields:
  assumes "i < length (colors st)"
  shows "selectedColorIndex (setKeyframes i kfs st) = selectedColorIndex st"
    and "selectedFrame (setKeyframes i kfs st) = selectedFrame st"
    and "length (colors (setKeyframes i kfs st)) = length (colors st)"
    and "keyframes (colors (setKeyframes i kfs st) ! i) = Some kfs"
    and "r (colors (setKeyframes i kfs st) ! i) = r (colors st ! i)"
  using assms by (simp_all add: setKeyframes_def)

lemma renderTimeline_setKeyframes:
  assumes "0 \<le> selectedColorIndex st" and "nat (selectedColorIndex st) < length (colors st)"
  shows "renderTimeline (setKeyframes (nat (selectedColorIndex st)) kfs st) = None"
  using assms by (simp add: renderTimeline_def setKeyframes_def)

lemma frame_newKeyframe: "frame (newKeyframe st) = selectedFrame st"
  by (simp add: newKeyframe_def Let_def)

lemma toggleKeyframe_insert:
  assumes "0 \<le> selectedColorIndex st" and "nat (selectedColorIndex st) < length (colors st)"
    and "keyframes (colors st ! nat (selectedColorIndex st)) = Some kfs"
    and "selectedFrame st \<notin> frame ` set kfs"
  shows "toggleKeyframe st
           = (setKeyframes (nat (selectedColorIndex st))
                (sort_key frame (kfs @ [newKeyframe st])) st, None)"
proof -
  have "\<forall>kf \<in> set kfs. frame kf \<noteq> selectedFrame st" using assms(4) by force
  then have "findIndex (\<lambda>kf. frame kf = selectedFrame st) kfs = None"
    by (simp add: findIndex_None_iff)
  then show ?thesis
    using assms(1-3) renderTimeline_setKeyframes [OF assms(1,2)]
    by (simp add: toggleKeyframe_def Let_def newKeyframe_def)
qed

lemma toggleKeyframe_remove:
  assumes "0 \<le> selectedColorIndex st" and "nat (selectedColorIndex st) < length (colors st)"
    and "keyframes (colors st ! nat (selectedColorIndex st)) = Some kfs"
    and "findIndex (\<lambda>kf. frame kf = selectedFrame st) kfs = Some k"
  shows "toggleKeyframe st
           = (setKeyframes (nat (selectedColorIndex st)) (splice1 k kfs) st, None)"
  using assms renderTimeline_setKeyframes [OF assms(1,2)]
  by (simp add: toggleKeyframe_def Let_def)

lemma toggle_absent_twice:
  assumes "0 \<le> selectedColorIndex st" and "nat (selectedColorIndex st) < length (colors st)"
    and "keyframes (colors st ! nat (selectedColorIndex st)) = Some kfs"
    and "sorted (map frame kfs)"
    and "selectedFrame st \<notin> frame ` set kfs"
  shows "snd (toggleKeyframe st) = None
       \<and> toggleKeyframe (fst (toggleKeyframe st)) = (st, None)"
proof -
  let ?i = "nat (selectedColorIndex st)"
  let ?f = "selectedFrame st"
  let ?kfs1 = "sort_key frame (kfs @ [newKeyframe st])"
  let ?st1 = "setKeyframes ?i ?kfs1 st"
  have first: "toggleKeyframe st = (?st1, None)"
    by (rule toggleKeyframe_insert [OF assms(1-3,5)])
  have sel: "0 \<le> selectedColorIndex ?st1" "nat (selectedColorIndex ?st1) < length (colors ?st1)"
    "keyframes (colors ?st1 ! nat (selectedColorIndex ?st1)) = Some ?kfs1"
    "selectedFrame ?st1 = ?f" "selectedColorIndex ?st1 = selectedColorIndex st"
    using assms(1,2) by (simp_all add: setKeyframes_fields)
  have nf: "\<forall>kf \<in> set kfs. frame kf \<noteq> ?f" using assms(5) by force
  have nokf: "filter (\<lambda>kf. frame kf = ?f) kfs = []"
    using nf by (simp add: filter_empty_conv)
  have one: "filter (\<lambda>kf. frame kf = ?f) ?kfs1 = [newKeyframe st]"
    by (simp add: filter_sort nokf frame_newKeyframe)
  have "newKeyframe st \<in> set ?kfs1" by simp
  then have "\<exists>x \<in> set ?kfs1. frame x = ?f"
    using frame_newKeyframe by blast
  then obtain k where k: "findIndex (\<lambda>kf. frame kf = ?f) ?kfs1 = Some k"
    using findIndex_None_iff [of "\<lambda>kf. frame kf = ?f" ?kfs1] by (cases "findIndex (\<lambda>kf. frame kf = ?f) ?kfs1") auto
  have rest: "filter (\<lambda>kf. \<not> frame kf = ?f) kfs = kfs"
    using nf by (simp add: filter_id_conv)
  have "splice1 k ?kfs1 = filter (\<lambda>kf. \<not> frame kf = ?f) ?kfs1"
    using k one by (intro splice1_findIndex_unique) simp_all
  also have "\<dots> = sort_key frame kfs"
    by (simp add: filter_sort rest frame_newKeyframe)
  also have "\<dots> = kfs" by (rule sort_key_id_if_sorted [OF assms(4)])
  finally have sp: "splice1 k ?kfs1 = kfs" .
  have "toggleKeyframe ?st1 = (setKeyframes ?i (splice1 k ?kfs1) ?st1, None)"
    using toggleKeyframe_remove [OF sel(1,2,3)] k sel(4,5) by simp
  also have "setKeyframes ?i (splice1 k ?kfs1) ?st1 = st"
    using assms(2,3) by (simp add: sp setKeyframes_twice setKeyframes_same)
  finally show ?thesis using first by simp
qed

lemma filter_key_unique:
  "distinct (map f xs) \<Longrightarrow> k \<in> f ` set xs \<Longrightarrow> length (filter (\<lambda>x. f x = k) xs) = 1"
proof (induction xs)
  case Nil
  then show ?case by simp
next
  case (Cons x xs)
  show ?case
  proof (cases "f x = k")
    case True
    from Cons.prems have "f x \<notin> f ` set xs" by simp
    with True have "\<forall>y \<in> set xs. f y \<noteq> k" by (metis imageI)
    then have "filter (\<lambda>x. f x = k) xs = []" by (simp add: filter_empty_conv)
    with True show ?thesis by simp
  next
    case False
    with Cons show ?thesis by auto
  qed
qed

lemma toggle_existing_twice_frames:
  assumes "0 \<le> selectedColorIndex st" and "nat (selectedColorIndex st) < length (colors st)"
    and "keyframes (colors st ! nat (selectedColorIndex st)) = Some kfs"
    and "kfInv kfs"
    and "selectedFrame st \<in> frame ` set kfs"
  shows "\<exists>kfs2. keyframes (colors (fst (toggleKeyframe (fst (toggleKeyframe st))))
                    ! nat (selectedColorIndex st)) = Some kfs2
              \<and> snd (toggleKeyframe (fst (toggleKeyframe st))) = None
              \<and> map frame kfs2 = map frame kfs"
proof -
  let ?i = "nat (selectedColorIndex st)"
  let ?f = "selectedFrame st"
  from assms(5) have "\<not> (\<forall>x \<in> set kfs. frame x \<noteq> ?f)" by auto
  then obtain k where k: "findIndex (\<lambda>kf. frame kf = ?f) kfs = Some k"
    using findIndex_None_iff [of "\<lambda>kf. frame kf = ?f" kfs]
    by (cases "findIndex (\<lambda>kf. frame kf = ?f) kfs") auto
  have one: "length (filter (\<lambda>kf. frame kf = ?f) kfs) = 1"
    using assms(4,5) by (intro filter_key_unique) (simp_all add: kfInv_def)
  have sp: "splice1 k kfs = filter (\<lambda>kf. \<not> frame kf = ?f) kfs"
    by (rule splice1_findIndex_unique [OF k one])
  let ?kfs1 = "filter (\<lambda>kf. \<not> frame kf = ?f) kfs"
  let ?st1 = "setKeyframes ?i ?kfs1 st"
  have first: "toggleKeyframe st = (?st1, None)"
    using toggleKeyframe_remove [OF assms(1-3) k] sp by simp
  have sel: "0 \<le> selectedColorIndex ?st1" "nat (selectedColorIndex ?st1) < length (colors ?st1)"
    "keyframes (colors ?st1 ! nat (selectedColorIndex ?st1)) = Some ?kfs1"
    "selectedFrame ?st1 = ?f" "selectedColorIndex ?st1 = selectedColorIndex st"
    using assms(1,2) by (simp_all add: setKeyframes_fields)
  have nf: "selectedFrame ?st1 \<notin> frame ` set ?kfs1" using sel(4) by auto
  let ?kfs2 = "sort_key frame (?kfs1 @ [newKeyframe ?st1])"
  have second: "toggleKeyframe ?st1 = (setKeyframes ?i ?kfs2 ?st1, None)"
    using toggleKeyframe_insert [OF sel(1,2,3) nf] sel(5) by simp
  have kf2: "keyframes (colors (setKeyframes ?i ?kfs2 ?st1) ! ?i) = Some ?kfs2"
    using sel(2,5) by (simp add: setKeyframes_fields)
  have s2: "sorted (map frame ?kfs2)" by simp
  have d1: "distinct (map frame ?kfs1)"
    using assms(4) by (simp add: kfInv_def distinct_map_filter)
  have d2: "distinct (map frame ?kfs2)"
    using d1 nf sel(4) by (simp add: distinct_map_sort_key frame_newKeyframe)
  have set2: "set (map frame ?kfs2) = set (map frame kfs)"
    using assms(5) sel(4) by (auto simp: frame_newKeyframe)
  have "map frame ?kfs2 = map frame kfs"
    using s2 d2 assms(4) set2 by (intro sorted_distinct_set_unique) (simp_all add: kfInv_def)
  then show ?thesis using first second kf2 by simp
qed

text \<open>
  Claim C3, as amended.  Take an entry whose keyframes are sorted by frame, selected, and
  a frame \<open>f\<close>.  When the entry has no keyframe at \<open>f\<close>, two calls of \<open>toggleKeyframe\<close> in
  succession leave the state exactly as it was.  When it has one (and no frame occurs
  twice), the two calls return normally and restore the list of frames; the keyframe
  at \<open>f\<close> is then the one the second call inserts, with the colour interpolated from the
  keyframes that remained.
\<close>

theorem toggle_twice_restores:
  assumes "0 \<le> selectedColorIndex st" and "nat (selectedColorIndex st) < length (colors st)"
    and "keyframes (colors st ! nat (selectedColorIndex st)) = Some kfs"
    and "sorted (map frame kfs)"
  shows "(selectedFrame st \<notin> frame ` set kfs \<longrightarrow>
            snd (toggleKeyframe st) = None
          \<and> toggleKeyframe (fst (toggleKeyframe st)) = (st, None))
       \<and> (selectedFrame st \<in> frame ` set kfs \<longrightarrow> distinct (map frame kfs) \<longrightarrow>
            (\<exists>kfs2. keyframes (colors (fst (toggleKeyframe (fst (toggleKeyframe st))))
                       ! nat (selectedColorIndex st)) = Some kfs2
                 \<and> snd (toggleKeyframe (fst (toggleKeyframe st))) = None
                 \<and> map frame kfs2 = map frame kfs))"
  using toggle_absent_twice [OF assms] toggle_existing_twice_frames [OF assms(1-3)] assms(4)
  by (simp add: kfInv_def)

lemma twoColors_hyps:
  "0 \<le> selectedColorIndex twoColors"
  "nat (selectedColorIndex twoColors) < length (colors twoColors)"
  "keyframes (colors twoColors ! nat (selectedColorIndex twoColors))
     = Some [\<lparr> r = 1, g = 2, b = 3, a = 4, frame = 0 \<rparr>, \<lparr> r = 9, g = 8, b = 7, a = 6, frame = 10 \<rparr>]"
  "sorted (map frame [\<lparr> r = 1, g = 2, b = 3, a = 4, frame = 0 \<rparr>,
                      \<lparr> r = 9, g = 8, b = 7, a = 6, frame = 10 \<rparr>])"
  "selectedFrame twoColors
     \<notin> frame ` set [\<lparr> r = 1, g = 2, b = 3, a = 4, frame = 0 \<rparr>,
                     \<lparr> r = 9, g = 8, b = 7, a = 6, frame = 10 \<rparr>]"
  by (simp_all add: twoColors_def)

theorem toggle_twice_restores_witness:
  "0 \<le> selectedColorIndex twoColors
   \<and> nat (selectedColorIndex twoColors) < length (colors twoColors)
   \<and> keyframes (colors twoColors ! nat (selectedColorIndex twoColors))
       = Some [\<lparr> r = 1, g = 2, b = 3, a = 4, frame = 0 \<rparr>, \<lparr> r = 9, g = 8, b = 7, a = 6, frame = 10 \<rparr>]
   \<and> sorted (map frame [\<lparr> r = 1, g = 2, b = 3, a = 4, frame = 0 \<rparr>,
                        \<lparr> r = 9, g = 8, b = 7, a = 6, frame = 10 \<rparr>])
   \<and> selectedFrame twoColors
       \<notin> frame ` set [\<lparr> r = 1, g = 2, b = 3, a = 4, frame = 0 \<rparr>,
                       \<lparr> r = 9, g = 8, b = 7, a = 6, frame = 10 \<rparr>]
   \<and> toggleKeyframe (fst (toggleKeyframe twoColors)) = (twoColors, None)"
proof -
  note h = twoColors_hyps
  note t = toggle_twice_restores [OF h(1-4), THEN conjunct1, THEN mp, OF h(5), THEN conjunct2]
  show ?thesis
    by (rule conjI [OF h(1) conjI [OF h(2) conjI [OF h(3) conjI [OF h(4) conjI [OF h(5) t]]]]])
qed

text \<open>
  The claim as it stands fails where a keyframe existed at the frame: the colour of the
  removed keyframe is not kept, the second call inserts the interpolated colour.
\<close>

theorem toggle_existing_counterexample:
  "keyframes (colors (twoColors\<lparr> selectedFrame := 10 \<rparr>) ! 1)
     = Some [\<lparr> r = 1, g = 2, b = 3, a = 4, frame = 0 \<rparr>, \<lparr> r = 9, g = 8, b = 7, a = 6, frame = 10 \<rparr>]
   \<and> keyframes (colors (fst (toggleKeyframe (fst (toggleKeyframe
          (twoColors\<lparr> selectedFrame := 10 \<rparr>))))) ! 1)
     = Some [\<lparr> r = 1, g = 2, b = 3, a = 4, frame = 0 \<rparr>, \<lparr> r = 1, g = 2, b = 3, a = 4, frame = 10 \<rparr>]"
  by code_simp

section \<open>Keyframe tracks stay sorted\<close>

























section \<open>Hex strings\<close>

lemma isHexDigit_iff:
  "isHexDigit c \<longleftrightarrow> c = CHR ''0'' \<or> c = CHR ''1'' \<or> c = CHR ''2'' \<or> c = CHR ''3'' \<or> c = CHR ''4''
     \<or> c = CHR ''5'' \<or> c = CHR ''6'' \<or> c = CHR ''7'' \<or> c = CHR ''8'' \<or> c = CHR ''9''
     \<or> c = CHR ''a'' \<or> c = CHR ''b'' \<or> c = CHR ''c'' \<or> c = CHR ''d'' \<or> c = CHR ''e''
     \<or> c = CHR ''f'' \<or> c = CHR ''A'' \<or> c = CHR ''B'' \<or> c = CHR ''C'' \<or> c = CHR ''D''
     \<or> c = CHR ''E'' \<or> c = CHR ''F''"
  by (simp add: isHexDigit_def)

lemma isHexDigit_cases:
  assumes "isHexDigit c"
  shows "\<not> isSpace c \<and> c \<noteq> CHR ''-'' \<and> c \<noteq> CHR ''+'' \<and> c \<noteq> CHR ''x'' \<and> c \<noteq> CHR ''X''
     \<and> c \<noteq> CHR ''#'' \<and> isRadixDigit 16 c \<and> digitVal c = Some (hexValue c)"
  using assms unfolding isHexDigit_iff
  by (elim disjE) (simp_all add: isSpace_def isRadixDigit_def digitVal_def hexValue_def)

lemma parseInt16_pair:
  assumes "isHexDigit hi" and "isHexDigit lo"
  shows "parseIntRadix (Some 16) [hi, lo] = Some (hexPair hi lo)"
  using isHexDigit_cases [OF assms(1)] isHexDigit_cases [OF assms(2)]
  by (simp add: parseIntRadix_def Let_def hexPair_def)

lemma length_six:
  "length xs = 6 \<Longrightarrow> \<exists>c0 c1 c2 c3 c4 c5. xs = [c0, c1, c2, c3, c4, c5]"
  by (auto simp: numeral_eq_Suc length_Suc_conv)

lemma wheelHexToRgb_body:
  assumes "isHexDigit c0" "isHexDigit c1" "isHexDigit c2" "isHexDigit c3" "isHexDigit c4"
    "isHexDigit c5"
  shows "wheelHexToRgb [c0, c1, c2, c3, c4, c5]
           = Some (hexPair c0 c1, hexPair c2 c3, hexPair c4 c5)"
    and "wheelHexToRgb (CHR ''#'' # [c0, c1, c2, c3, c4, c5])
           = Some (hexPair c0 c1, hexPair c2 c3, hexPair c4 c5)"
    and "hexToRgb (CHR ''#'' # [c0, c1, c2, c3, c4, c5])
           = (Some (hexPair c0 c1), Some (hexPair c2 c3), Some (hexPair c4 c5))"
proof -
  have n: "c0 \<noteq> CHR ''#''" using isHexDigit_cases [OF assms(1)] by simp
  show "wheelHexToRgb [c0, c1, c2, c3, c4, c5]
           = Some (hexPair c0 c1, hexPair c2 c3, hexPair c4 c5)"
    using assms n by (simp add: wheelHexToRgb_def slice_def parseInt16_pair)
  show "wheelHexToRgb (CHR ''#'' # [c0, c1, c2, c3, c4, c5])
           = Some (hexPair c0 c1, hexPair c2 c3, hexPair c4 c5)"
    using assms by (simp add: wheelHexToRgb_def slice_def parseInt16_pair)
  show "hexToRgb (CHR ''#'' # [c0, c1, c2, c3, c4, c5])
           = (Some (hexPair c0 c1), Some (hexPair c2 c3), Some (hexPair c4 c5))"
    using assms by (simp add: hexToRgb_def slice_def parseInt16_pair)
qed

lemma wheelHexToRgb_Some_shape:
  assumes "wheelHexToRgb s = Some rgb"
  shows "\<exists>body. (s = body \<or> s = CHR ''#'' # body) \<and> length body = 6 \<and> list_all isHexDigit body"
  using assms
  by (cases s) (auto simp: wheelHexToRgb_def Let_def split: if_splits)

lemma wheel_hex_accepts:
  assumes "sixHexDigits body"
  shows "wheelHexToRgb body
           = Some (hexPair (body ! 0) (body ! 1), hexPair (body ! 2) (body ! 3),
                   hexPair (body ! 4) (body ! 5))"
    and "wheelHexToRgb (CHR ''#'' # body) = wheelHexToRgb body"
    and "hexToRgb (CHR ''#'' # body)
           = (Some (hexPair (body ! 0) (body ! 1)), Some (hexPair (body ! 2) (body ! 3)),
              Some (hexPair (body ! 4) (body ! 5)))"
proof -
  from assms obtain c0 c1 c2 c3 c4 c5 where b: "body = [c0, c1, c2, c3, c4, c5]"
    using length_six [of body] by (auto simp: sixHexDigits_def)
  with assms have h: "isHexDigit c0" "isHexDigit c1" "isHexDigit c2" "isHexDigit c3"
    "isHexDigit c4" "isHexDigit c5" by (simp_all add: sixHexDigits_def)
  note w = wheelHexToRgb_body [OF h]
  show "wheelHexToRgb body
           = Some (hexPair (body ! 0) (body ! 1), hexPair (body ! 2) (body ! 3),
                   hexPair (body ! 4) (body ! 5))"
    using w(1) by (simp add: b)
  show "wheelHexToRgb (CHR ''#'' # body) = wheelHexToRgb body"
    using w(1,2) by (simp add: b)
  show "hexToRgb (CHR ''#'' # body)
           = (Some (hexPair (body ! 0) (body ! 1)), Some (hexPair (body ! 2) (body ! 3)),
              Some (hexPair (body ! 4) (body ! 5)))"
    using w(3) by (simp add: b)
qed

lemma wheel_hex_rejects:
  assumes "\<not> sixHexDigits s" and "\<not> (\<exists>body. s = CHR ''#'' # body \<and> sixHexDigits body)"
  shows "wheelHexToRgb s = None"
proof (rule ccontr)
  assume "wheelHexToRgb s \<noteq> None"
  then obtain rgb where "wheelHexToRgb s = Some rgb" by auto
  from wheelHexToRgb_Some_shape [OF this] assms show False
    by (auto simp: sixHexDigits_def)
qed

text \<open>
  Claim C8, as amended.  The hex parser of the colour wheel accepts exactly the strings of
  six hexadecimal digits, with or without a leading \<open>#\<close>, in either case, and gives the
  three bytes they denote; on every other string it gives \<open>null\<close>, and the \<open>hex\<close> setter
  then leaves the colour as it was.  \<open>hexToRgb\<close> of colorUtils.js checks nothing: it
  reads the characters 1 to 2, 3 to 4 and 5 to 6, which are the three bytes when the
  string is \<open>#\<close> and six hexadecimal digits.
\<close>

theorem wheel_hex_parser:
  "(sixHexDigits body \<longrightarrow>
      wheelHexToRgb body
        = Some (hexPair (body ! 0) (body ! 1), hexPair (body ! 2) (body ! 3),
                hexPair (body ! 4) (body ! 5))
    \<and> wheelHexToRgb (CHR ''#'' # body) = wheelHexToRgb body
    \<and> setHex body old
        = (hexPair (body ! 0) (body ! 1), hexPair (body ! 2) (body ! 3),
           hexPair (body ! 4) (body ! 5))
    \<and> hexToRgb (CHR ''#'' # body)
        = (Some (hexPair (body ! 0) (body ! 1)), Some (hexPair (body ! 2) (body ! 3)),
           Some (hexPair (body ! 4) (body ! 5))))
   \<and> (\<not> sixHexDigits s \<and> \<not> (\<exists>b. s = CHR ''#'' # b \<and> sixHexDigits b) \<longrightarrow>
        wheelHexToRgb s = None \<and> setHex s old = old)"
  using wheel_hex_accepts [of body] wheel_hex_rejects [of s]
  by (simp add: setHex_def)

lemma hex_eval:
  \<open>sixHexDigits ''Ff00aB''\<close>
  \<open>hexPair (''Ff00aB'' ! 0) (''Ff00aB'' ! 1) = 255\<close>
  \<open>hexPair (''Ff00aB'' ! 2) (''Ff00aB'' ! 3) = 0\<close>
  \<open>hexPair (''Ff00aB'' ! 4) (''Ff00aB'' ! 5) = 171\<close>
  by code_simp+

lemma hex_reject_eval:
  \<open>\<not> sixHexDigits ''#ff00zz''\<close>
  \<open>\<not> (\<exists>b. ''#ff00zz'' = CHR ''#'' # b \<and> sixHexDigits b)\<close>
  by (simp_all add: sixHexDigits_def isHexDigit_def)

theorem wheel_hex_parser_witness:
  \<open>sixHexDigits ''Ff00aB''
   \<and> wheelHexToRgb ''Ff00aB'' = Some (255, 0, 171)
   \<and> wheelHexToRgb ''#Ff00aB'' = wheelHexToRgb ''Ff00aB''
   \<and> setHex ''Ff00aB'' (1, 2, 3) = (255, 0, 171)
   \<and> wheelHexToRgb ''#ff00zz'' = None \<and> setHex ''#ff00zz'' (1, 2, 3) = (1, 2, 3)\<close>
proof -
  note t = wheel_hex_parser [of \<open>''Ff00aB''\<close> \<open>(1, 2, 3)\<close> \<open>''#ff00zz''\<close>]
  note acc = t [THEN conjunct1, THEN mp, OF hex_eval(1), unfolded hex_eval]
  note rej = t [THEN conjunct2, THEN mp, OF conjI [OF hex_reject_eval]]
  show ?thesis
    using hex_eval(1) acc rej by simp
qed

text \<open>
  The claim as it stands fails on \<open>hexToRgb\<close> of colorUtils.js: without the \<open>#\<close> it reads
  shifted digits and still gives a colour, and a string that is too short gives a
  colour with NaN in it, not a failure.
\<close>

theorem colorUtils_hexToRgb_counterexample:
  \<open>hexToRgb ''ff0000'' = (Some 240, Some 0, Some 0)
   \<and> wheelHexToRgb ''ff0000'' = Some (255, 0, 0)
   \<and> hexToRgb ''#ff00'' = (Some 255, Some 0, None)\<close>
  by code_simp

section \<open>Rounding to a double\<close>

lemma roundHalfEven_error: "\<bar>of_int (roundHalfEven y) - y\<bar> \<le> 1 / 2"
proof -
  have "of_int \<lfloor>y\<rfloor> \<le> y" "y < of_int \<lfloor>y\<rfloor> + 1" by linarith+
  then show ?thesis
    by (auto simp: roundHalfEven_def Let_def) 
qed

lemma expo_le:
  assumes "x \<noteq> 0"
  shows "2 powi (expo x) \<le> \<bar>x\<bar>"
proof -
  obtain n d where q: "quotient_of \<bar>x\<bar> = (n, d)" by (cases "quotient_of \<bar>x\<bar>")
  have d: "0 < d" using quotient_of_denom_pos [OF q] .
  have x: "\<bar>x\<bar> = of_int n / of_int d" using quotient_of_div [OF q] .
  have "0 < \<bar>x\<bar>" using assms by simp
  with x d have n: "0 < n" by (simp add: zero_less_divide_iff)
  have e: "expo x = (if 2 powi (bitlen n - bitlen d) \<le> \<bar>x\<bar> then bitlen n - bitlen d
                     else bitlen n - bitlen d - 1)"
    by (simp add: expo_def q Let_def)
  show ?thesis
  proof (cases "2 powi (bitlen n - bitlen d) \<le> \<bar>x\<bar>")
    case True
    then show ?thesis by (simp add: e)
  next
    case False
    have bn: "(2::int) ^ nat (bitlen n - 1) \<le> n" using bitlen_bounds [OF n] by simp
    have bd: "d < (2::int) ^ nat (bitlen d)" using bitlen_bounds [OF d] by simp
    have ln: "1 \<le> bitlen n" using n bitlen_ge_iff_power [of 1 n] by simp
    have ld: "0 \<le> bitlen d" by (rule bitlen_nonneg)
    have rn: "(2::rat) powi (bitlen n - 1) \<le> of_int n"
    proof -
      have "(2::rat) powi (bitlen n - 1) = 2 ^ nat (bitlen n - 1)"
        using ln by (simp add: power_int_nonneg_exp)
      also have "\<dots> = of_int (2 ^ nat (bitlen n - 1))" by simp
      also have "\<dots> \<le> of_int n" using bn by (simp only: of_int_le_iff)
      finally show ?thesis .
    qed
    have rd: "of_int d \<le> (2::rat) powi (bitlen d)"
    proof -
      have "(of_int d :: rat) \<le> of_int (2 ^ nat (bitlen d))" using bd by (simp only: of_int_le_iff)
      also have "\<dots> = 2 ^ nat (bitlen d)" by simp
      also have "\<dots> = 2 powi (bitlen d)" using ld by (simp add: power_int_nonneg_exp)
      finally show ?thesis .
    qed
    have "(2::rat) powi (bitlen n - bitlen d - 1) = 2 powi (bitlen n - 1) / 2 powi (bitlen d)"
      using power_int_diff [of "2::rat" "bitlen n - 1" "bitlen d"] by (simp add: algebra_simps)
    also have "\<dots> \<le> of_int n / 2 powi (bitlen d)"
      using rn by (simp add: divide_right_mono)
    also have "\<dots> \<le> of_int n / of_int d"
      using rd d n by (intro divide_left_mono) simp_all
    finally have "(2::rat) powi (bitlen n - bitlen d - 1) \<le> \<bar>x\<bar>" by (simp only: x)
    then show ?thesis using False by (simp add: e)
  qed
qed

lemma fl_error: "\<bar>fl x - x\<bar> \<le> \<bar>x\<bar> / 2 ^ 53"
proof (cases "x = 0")
  case True
  then show ?thesis by (simp add: fl_def)
next
  case False
  define ulp :: rat where "ulp = 2 powi (expo x - 52)"
  have up: "0 < ulp" by (simp add: ulp_def)
  have flx: "fl x = of_int (roundHalfEven (x / ulp)) * ulp"
    using False by (simp add: fl_def ulp_def Let_def)
  have "\<bar>fl x - x\<bar> = \<bar>of_int (roundHalfEven (x / ulp)) - x / ulp\<bar> * ulp"
  proof -
    have "fl x - x = (of_int (roundHalfEven (x / ulp)) - x / ulp) * ulp"
      using up by (simp add: flx field_simps)
    then show ?thesis using up by (simp add: abs_mult)
  qed
  also have "\<dots> \<le> (1 / 2) * ulp"
    using roundHalfEven_error [of "x / ulp"] up by (intro mult_right_mono) simp_all
  also have "\<dots> = 2 powi (expo x) / 2 ^ 53"
  proof -
    have "ulp = 2 powi (expo x) / 2 powi 52"
      unfolding ulp_def by (rule power_int_diff) simp
    then show ?thesis by simp
  qed
  also have "\<dots> \<le> \<bar>x\<bar> / 2 ^ 53"
    using expo_le [OF False] by (simp add: divide_right_mono)
  finally show ?thesis .
qed

lemma lerp_error:
  fixes p n k d :: int
  assumes p: "0 \<le> p" "p \<le> 255" and n: "0 \<le> n" "n \<le> 255"
    and k: "0 < k" "k < d"
  shows "\<bar>fl (of_int p + fl (of_int (n - p) * fl (of_int k / of_int d))) - exactChannel p n k d\<bar>
           \<le> 1021 / 2 ^ 53"
proof -
  define u :: rat where "u = 1 / 2 ^ 53"
  define t :: rat where "t = of_int k / of_int d"
  define D :: rat where "D = of_int (n - p)"
  define P :: rat where "P = of_int p"
  have u0: "0 < u" "u \<le> 1 / 1024" by (simp_all add: u_def)
  have t01: "0 < t" "t < 1" using k by (simp_all add: t_def)
  have Dabs: "\<bar>D\<bar> \<le> 255"
  proof -
    have "\<bar>n - p\<bar> \<le> 255" using p n by linarith
    then have "(of_int \<bar>n - p\<bar> :: rat) \<le> of_int 255" by (simp only: of_int_le_iff)
    then show ?thesis by (simp add: D_def)
  qed
  have Pb: "0 \<le> P" "P \<le> 255"
  proof -
    show "0 \<le> P" using p by (simp add: P_def)
    have "(of_int p :: rat) \<le> of_int 255" using p by (simp only: of_int_le_iff)
    then show "P \<le> 255" by (simp add: P_def)
  qed
  have Nb: "0 \<le> P + D" "P + D \<le> 255"
  proof -
    have e: "P + D = of_int n" by (simp add: P_def D_def)
    show "0 \<le> P + D" using n by (simp add: e)
    have "(of_int n :: rat) \<le> of_int 255" using n by (simp only: of_int_le_iff)
    then show "P + D \<le> 255" by (simp add: e)
  qed
  define factor where "factor = fl t"
  have f1: "\<bar>factor - t\<bar> \<le> u"
  proof -
    have "\<bar>factor - t\<bar> \<le> \<bar>t\<bar> / 2 ^ 53" unfolding factor_def by (rule fl_error)
    also have "\<dots> = t * u" using t01 by (simp add: u_def)
    also have "\<dots> \<le> 1 * u" using t01 u0 by (intro mult_right_mono) simp_all
    finally show ?thesis by simp
  qed
  define y where "y = D * factor"
  have y1: "\<bar>y - D * t\<bar> \<le> 255 * u"
  proof -
    have "y - D * t = D * (factor - t)" by (simp add: y_def algebra_simps)
    then have "\<bar>y - D * t\<bar> = \<bar>D\<bar> * \<bar>factor - t\<bar>" by (simp add: abs_mult)
    also have "\<dots> \<le> 255 * u" using Dabs f1 by (intro mult_mono) simp_all
    finally show ?thesis .
  qed
  have Dt: "\<bar>D * t\<bar> \<le> 255"
  proof -
    have "\<bar>D * t\<bar> = \<bar>D\<bar> * t" using t01 by (simp add: abs_mult)
    also have "\<dots> \<le> 255 * 1" using Dabs t01 by (intro mult_mono) simp_all
    finally show ?thesis by simp
  qed
  have yabs: "\<bar>y\<bar> \<le> 256"
  proof -
    have "\<bar>y\<bar> \<le> \<bar>y - D * t\<bar> + \<bar>D * t\<bar>" by simp
    also have "\<dots> \<le> 255 * u + 255" using y1 Dt by simp
    also have "\<dots> \<le> 256" using u0 by simp
    finally show ?thesis .
  qed
  define prod where "prod = fl y"
  have p1: "\<bar>prod - y\<bar> \<le> 256 * u"
  proof -
    have "\<bar>prod - y\<bar> \<le> \<bar>y\<bar> / 2 ^ 53" unfolding prod_def by (rule fl_error)
    also have "\<dots> = \<bar>y\<bar> * u" by (simp add: u_def)
    also have "\<dots> \<le> 256 * u" using yabs u0 by (intro mult_right_mono) simp_all
    finally show ?thesis .
  qed
  have p2: "\<bar>prod - D * t\<bar> \<le> 511 * u"
  proof -
    have "\<bar>prod - D * t\<bar> \<le> \<bar>prod - y\<bar> + \<bar>y - D * t\<bar>" by simp
    also have "\<dots> \<le> 256 * u + 255 * u" using p1 y1 by simp
    finally show ?thesis by simp
  qed
  define x where "x = P + D * t"
  have xb: "0 \<le> x" "x \<le> 255"
  proof -
    have "x = (1 - t) * P + t * (P + D)" by (simp add: x_def algebra_simps)
    moreover have "0 \<le> (1 - t) * P" "0 \<le> t * (P + D)" using t01 Pb Nb by simp_all
    moreover have "(1 - t) * P \<le> (1 - t) * 255" using t01 Pb by (intro mult_left_mono) simp_all
    moreover have "t * (P + D) \<le> t * 255" using t01 Nb by (intro mult_left_mono) simp_all
    ultimately show "0 \<le> x" "x \<le> 255" by (simp_all add: algebra_simps)
  qed
  define z where "z = P + prod"
  have z1: "\<bar>z - x\<bar> \<le> 511 * u" using p2 by (simp add: z_def x_def)
  have zabs: "\<bar>z\<bar> \<le> 256"
  proof -
    have "\<bar>z\<bar> \<le> \<bar>z - x\<bar> + \<bar>x\<bar>" by simp
    also have "\<dots> \<le> 511 * u + 255" using z1 xb by simp
    also have "\<dots> \<le> 256" using u0 by simp
    finally show ?thesis .
  qed
  have s1: "\<bar>fl z - z\<bar> \<le> 256 * u"
  proof -
    have "\<bar>fl z - z\<bar> \<le> \<bar>z\<bar> / 2 ^ 53" by (rule fl_error)
    also have "\<dots> = \<bar>z\<bar> * u" by (simp add: u_def)
    also have "\<dots> \<le> 256 * u" using zabs u0 by (intro mult_right_mono) simp_all
    finally show ?thesis .
  qed
  have "\<bar>fl z - x\<bar> \<le> \<bar>fl z - z\<bar> + \<bar>z - x\<bar>" by simp
  also have "\<dots> \<le> 256 * u + 511 * u" using s1 z1 by simp
  also have "\<dots> \<le> 1021 / 2 ^ 53" by (simp add: u_def)
  finally have "\<bar>fl z - x\<bar> \<le> 1021 / 2 ^ 53" .
  moreover have "x = exactChannel p n k d"
    by (simp add: x_def exactChannel_def P_def D_def t_def)
  moreover have "fl z = fl (of_int p + fl (of_int (n - p) * fl (of_int k / of_int d)))"
    by (simp add: z_def prod_def y_def factor_def P_def D_def t_def)
  ultimately show ?thesis by simp
qed

lemma lerpChannel_nearest:
  fixes p n k d :: int
  assumes p: "0 \<le> p" "p \<le> 255" and n: "0 \<le> n" "n \<le> 255"
    and k: "0 < k" "k < d" and d: "d \<le> 2 ^ 42"
  shows "\<bar>of_int (lerpChannel p n (fl (of_int k / of_int d))) - exactChannel p n k d\<bar> \<le> 1 / 2"
proof -
  define s where "s = fl (of_int p + fl (of_int (n - p) * fl (of_int k / of_int d)))"
  define x where "x = exactChannel p n k d"
  define c where "c = lerpChannel p n (fl (of_int k / of_int d))"
  define N where "N = 2 * (p * d + (n - p) * k)"
  define dl :: rat where "dl = 1021 / 2 ^ 53"
  have dpos: "0 < d" using k by simp
  have rd: "0 < (of_int d :: rat)" using dpos by simp
  have err: "\<bar>s - x\<bar> \<le> dl"
    unfolding s_def x_def dl_def by (rule lerp_error [OF p n k])
  have err2: "s - x \<le> dl" "x - s \<le> dl" using err by (simp_all only: abs_le_iff) simp_all
  have c_eq: "c = \<lfloor>s + 1 / 2\<rfloor>" by (simp add: c_def lerpChannel_def mathRound_def s_def)
  have lo: "of_int c \<le> s + 1 / 2" and hi: "s + 1 / 2 < of_int c + 1"
    unfolding c_eq by linarith+
  have Nx: "of_int N = 2 * of_int d * x"
    using rd by (simp add: N_def x_def exactChannel_def field_simps)
  have dr: "(of_int d :: rat) \<le> 2 ^ 42"
  proof -
    have "(of_int d :: rat) \<le> of_int (2 ^ 42)" using d by (simp only: of_int_le_iff)
    then show ?thesis by simp
  qed
  have small: "2 * of_int d * dl < 1"
  proof -
    have "2 * of_int d * dl \<le> 2 * 2 ^ 42 * dl"
      using dr by (intro mult_right_mono mult_left_mono) (simp_all add: dl_def)
    also have "\<dots> < 1" by (simp add: dl_def)
    finally show ?thesis .
  qed
  have xlo: "of_int c - 1 / 2 - dl \<le> x" using lo err2 by linarith
  have xhi: "x < of_int c + 1 / 2 + dl" using hi err2 by linarith
  have "2 * of_int d * (of_int c - 1 / 2 - dl) \<le> 2 * of_int d * x"
    using xlo rd by (intro mult_left_mono) simp_all
  then have "of_int (d * (2 * c - 1)) - 2 * of_int d * dl \<le> of_int N"
    by (simp add: Nx algebra_simps)
  then have "(of_int (d * (2 * c - 1) - 1) :: rat) < of_int N" using small by simp
  then have "d * (2 * c - 1) - 1 < N" by (simp only: of_int_less_iff)
  then have "d * (2 * c - 1) \<le> N" by simp
  then have "(of_int (d * (2 * c - 1)) :: rat) \<le> of_int N" by (simp only: of_int_le_iff)
  then have "2 * of_int d * (of_int c - 1 / 2) \<le> 2 * of_int d * x"
    by (simp add: Nx algebra_simps)
  then have L: "of_int c - 1 / 2 \<le> x" using rd by simp
  have "2 * of_int d * x < 2 * of_int d * (of_int c + 1 / 2 + dl)"
    using xhi rd by (intro mult_strict_left_mono) simp_all
  then have "of_int N < of_int (d * (2 * c + 1)) + 2 * of_int d * dl"
    by (simp add: Nx algebra_simps)
  then have "(of_int N :: rat) < of_int (d * (2 * c + 1) + 1)" using small by simp
  then have "N < d * (2 * c + 1) + 1" by (simp only: of_int_less_iff)
  then have "N \<le> d * (2 * c + 1)" by simp
  then have "(of_int N :: rat) \<le> of_int (d * (2 * c + 1))" by (simp only: of_int_le_iff)
  then have "2 * of_int d * x \<le> 2 * of_int d * (of_int c + 1 / 2)"
    by (simp add: Nx algebra_simps)
  then have U: "x \<le> of_int c + 1 / 2" using rd by simp
  from L U have "\<bar>of_int c - x\<bar> \<le> 1 / 2" by (simp only: abs_le_iff) linarith
  then show ?thesis by (simp add: c_def x_def)
qed

lemma expo_upper:
  assumes "x \<noteq> 0"
  shows "\<bar>x\<bar> < 2 powi (expo x + 1)"
proof -
  obtain n d where q: "quotient_of \<bar>x\<bar> = (n, d)" by (cases "quotient_of \<bar>x\<bar>")
  have d: "0 < d" using quotient_of_denom_pos [OF q] .
  have x: "\<bar>x\<bar> = of_int n / of_int d" using quotient_of_div [OF q] .
  have "0 < \<bar>x\<bar>" using assms by simp
  with x d have n: "0 < n" by (simp add: zero_less_divide_iff)
  have e: "expo x = (if 2 powi (bitlen n - bitlen d) \<le> \<bar>x\<bar> then bitlen n - bitlen d
                     else bitlen n - bitlen d - 1)"
    by (simp add: expo_def q Let_def)
  show ?thesis
  proof (cases "2 powi (bitlen n - bitlen d) \<le> \<bar>x\<bar>")
    case False
    then show ?thesis by (simp add: e)
  next
    case True
    have bn: "n < (2::int) ^ nat (bitlen n)" using bitlen_bounds [OF n] by simp
    have bd: "(2::int) ^ nat (bitlen d - 1) \<le> d" using bitlen_bounds [OF d] by simp
    have ln: "0 \<le> bitlen n" by (rule bitlen_nonneg)
    have ld: "1 \<le> bitlen d" using d bitlen_ge_iff_power [of 1 d] by simp
    have rn: "of_int n < (2::rat) powi (bitlen n)"
    proof -
      have "(of_int n :: rat) < of_int (2 ^ nat (bitlen n))" using bn by (simp only: of_int_less_iff)
      also have "\<dots> = 2 ^ nat (bitlen n)" by simp
      also have "\<dots> = 2 powi (bitlen n)" using ln by (simp add: power_int_nonneg_exp)
      finally show ?thesis .
    qed
    have rd: "(2::rat) powi (bitlen d - 1) \<le> of_int d"
    proof -
      have "(2::rat) powi (bitlen d - 1) = 2 ^ nat (bitlen d - 1)"
        using ld by (simp add: power_int_nonneg_exp)
      also have "\<dots> = of_int (2 ^ nat (bitlen d - 1))" by simp
      also have "\<dots> \<le> of_int d" using bd by (simp only: of_int_le_iff)
      finally show ?thesis .
    qed
    have "of_int n / of_int d < (2::rat) powi (bitlen n) / of_int d"
      using rn d by (simp add: divide_strict_right_mono)
    also have "\<dots> \<le> 2 powi (bitlen n) / 2 powi (bitlen d - 1)"
      using rd d by (intro divide_left_mono) (simp_all add: zero_less_mult_iff)
    also have "\<dots> = 2 powi (bitlen n - (bitlen d - 1))"
      by (rule power_int_diff [symmetric]) simp
    finally have "\<bar>x\<bar> < 2 powi (bitlen n - bitlen d + 1)" by (simp add: x algebra_simps)
    then show ?thesis using True by (simp add: e)
  qed
qed

section \<open>getInterpolatedColor\<close>

lemma sorted_le_last:
  "sorted (xs :: int list) \<Longrightarrow> x \<in> set xs \<Longrightarrow> x \<le> last xs"
proof (induction xs)
  case Nil
  then show ?case by simp
next
  case (Cons y ys)
  then show ?case by (cases ys) auto
qed

lemma frame_inj:
  "distinct (map frame kfs) \<Longrightarrow> x \<in> set kfs \<Longrightarrow> y \<in> set kfs \<Longrightarrow> frame x = frame y \<Longrightarrow> x = y"
  by (auto simp: distinct_map dest: inj_onD)

lemma prevKey_eq:
  assumes "kfInv kfs" and "p \<in> set kfs" and "frame p \<le> f"
    and "\<forall>k \<in> set kfs. frame k \<le> f \<longrightarrow> frame k \<le> frame p"
  shows "(case filter (\<lambda>k. frame k \<le> f) kfs of [] \<Rightarrow> None | k # ks \<Rightarrow> Some (last (k # ks)))
           = Some p"
proof -
  define L where "L = filter (\<lambda>k. frame k \<le> f) kfs"
  have pL: "p \<in> set L" using assms(2,3) by (simp add: L_def)
  then have ne: "L \<noteq> []" by auto
  then have lastL: "last L \<in> set L" by simp
  then have lk: "last L \<in> set kfs" "frame (last L) \<le> f" by (simp_all add: L_def)
  have "sorted (map frame L)"
    using assms(1) unfolding L_def kfInv_def by (intro sorted_filter) simp
  moreover have "frame p \<in> set (map frame L)" using pL by simp
  ultimately have "frame p \<le> last (map frame L)" by (rule sorted_le_last)
  then have "frame p \<le> frame (last L)" using ne by (simp add: last_map)
  moreover have "frame (last L) \<le> frame p" using assms(4) lk by simp
  ultimately have "frame (last L) = frame p" by simp
  then have "last L = p" using assms(1,2) lk(1) by (auto simp: kfInv_def intro: frame_inj)
  then show ?thesis using ne unfolding L_def [symmetric] by (cases L) auto
qed

lemma prevKey_none:
  assumes "\<forall>k \<in> set kfs. f < frame k"
  shows "(case filter (\<lambda>k. frame k \<le> f) kfs of [] \<Rightarrow> None | k # ks \<Rightarrow> Some (last (k # ks)))
           = None"
proof -
  have "filter (\<lambda>k. frame k \<le> f) kfs = []" using assms by (auto simp: filter_empty_conv)
  then show ?thesis by simp
qed

lemma nextKey_eq:
  assumes "kfInv kfs" and "n \<in> set kfs" and "f \<le> frame n"
    and "\<forall>k \<in> set kfs. f \<le> frame k \<longrightarrow> frame n \<le> frame k"
  shows "find (\<lambda>k. f \<le> frame k) kfs = Some n"
proof -
  have "find (\<lambda>k. f \<le> frame k) kfs \<noteq> None" using assms(2,3) by (auto simp: find_None_iff)
  then obtain m where m: "find (\<lambda>k. f \<le> frame k) kfs = Some m" by auto
  then obtain i where i: "i < length kfs" "f \<le> frame (kfs ! i)" "m = kfs ! i"
    "\<forall>j<i. \<not> f \<le> frame (kfs ! j)" by (auto simp: find_Some_iff)
  from assms(2) obtain j where j: "j < length kfs" "n = kfs ! j" by (auto simp: in_set_conv_nth)
  have "i \<le> j" using i(4) j assms(3) by (meson not_le_imp_less)
  then have "map frame kfs ! i \<le> map frame kfs ! j"
    using assms(1) j(1) by (intro sorted_nth_mono) (simp_all add: kfInv_def)
  then have "frame m \<le> frame n" using i j by simp
  moreover have "frame n \<le> frame m" using assms(4) i by simp
  ultimately have "frame m = frame n" by simp
  then have "m = n" using assms(1,2) i(1,3) by (auto simp: kfInv_def intro: frame_inj)
  with m show ?thesis by simp
qed

lemma nextKey_none:
  assumes "\<forall>k \<in> set kfs. frame k < f"
  shows "find (\<lambda>k. f \<le> frame k) kfs = None"
  using assms by (auto simp: find_None_iff)

lemma betweenKeys_same: "betweenKeys f k k = baseColor k"
  by (simp add: betweenKeys_def)

lemma getInterpolatedColor_both:
  assumes "keyframes color = Some kfs" and "kfs \<noteq> []"
    and "(case filter (\<lambda>k. frame k \<le> f) kfs of [] \<Rightarrow> None | k # ks \<Rightarrow> Some (last (k # ks)))
           = Some p"
    and "find (\<lambda>k. f \<le> frame k) kfs = Some n"
  shows "getInterpolatedColor f color = betweenKeys f p n"
  using assms by (simp add: getInterpolatedColor_def betweenKeys_def Let_def)

lemma getInterpolatedColor_next_only:
  assumes "keyframes color = Some kfs" and "kfs \<noteq> []"
    and "(case filter (\<lambda>k. frame k \<le> f) kfs of [] \<Rightarrow> None | k # ks \<Rightarrow> Some (last (k # ks)))
           = None"
    and "find (\<lambda>k. f \<le> frame k) kfs = Some n"
  shows "getInterpolatedColor f color = baseColor n"
  using assms by (simp add: getInterpolatedColor_def Let_def)

lemma getInterpolatedColor_prev_only:
  assumes "keyframes color = Some kfs" and "kfs \<noteq> []"
    and "(case filter (\<lambda>k. frame k \<le> f) kfs of [] \<Rightarrow> None | k # ks \<Rightarrow> Some (last (k # ks)))
           = Some p"
    and "find (\<lambda>k. f \<le> frame k) kfs = None"
  shows "getInterpolatedColor f color = baseColor p"
  using assms by (simp add: getInterpolatedColor_def Let_def)

lemma getInterpolatedColor_static:
  "keyframes color = None \<or> keyframes color = Some [] \<Longrightarrow>
     getInterpolatedColor f color = baseColor color"
  by (auto simp: getInterpolatedColor_def)

lemma sorted_hd_le:
  "sorted (xs :: int list) \<Longrightarrow> x \<in> set xs \<Longrightarrow> hd xs \<le> x"
  by (cases xs) auto

lemma getInterpolatedColor_before_first:
  assumes "keyframes color = Some kfs" and "kfs \<noteq> []" and "kfInv kfs"
    and "f \<le> frame (hd kfs)"
  shows "getInterpolatedColor f color = baseColor (hd kfs)"
proof -
  have hd_in: "hd kfs \<in> set kfs" using assms(2) by simp
  have hd_min: "\<forall>k \<in> set kfs. frame (hd kfs) \<le> frame k"
  proof
    fix k assume "k \<in> set kfs"
    then have "frame k \<in> set (map frame kfs)" by simp
    with assms(3) have "hd (map frame kfs) \<le> frame k"
      unfolding kfInv_def by (intro sorted_hd_le) simp_all
    then show "frame (hd kfs) \<le> frame k" using assms(2) by (simp add: hd_map)
  qed
  have nx: "find (\<lambda>k. f \<le> frame k) kfs = Some (hd kfs)"
    using assms(3,4) hd_in hd_min by (intro nextKey_eq) auto
  show ?thesis
  proof (cases "f = frame (hd kfs)")
    case True
    have "(case filter (\<lambda>k. frame k \<le> f) kfs of [] \<Rightarrow> None | k # ks \<Rightarrow> Some (last (k # ks)))
            = Some (hd kfs)"
      using assms(3) hd_in hd_min True by (intro prevKey_eq) auto
    from getInterpolatedColor_both [OF assms(1,2) this nx] show ?thesis
      by (simp add: betweenKeys_same)
  next
    case False
    with assms(4) hd_min have "\<forall>k \<in> set kfs. f < frame k" by force
    from getInterpolatedColor_next_only [OF assms(1,2) prevKey_none [OF this] nx]
    show ?thesis .
  qed
qed

lemma getInterpolatedColor_after_last:
  assumes "keyframes color = Some kfs" and "kfs \<noteq> []" and "kfInv kfs"
    and "frame (last kfs) \<le> f"
  shows "getInterpolatedColor f color = baseColor (last kfs)"
proof -
  have last_in: "last kfs \<in> set kfs" using assms(2) by simp
  have last_max: "\<forall>k \<in> set kfs. frame k \<le> frame (last kfs)"
  proof
    fix k assume "k \<in> set kfs"
    then have "frame k \<in> set (map frame kfs)" by simp
    with assms(3) have "frame k \<le> last (map frame kfs)"
      unfolding kfInv_def by (intro sorted_le_last) simp_all
    then show "frame k \<le> frame (last kfs)" using assms(2) by (simp add: last_map)
  qed
  have pv: "(case filter (\<lambda>k. frame k \<le> f) kfs of [] \<Rightarrow> None | k # ks \<Rightarrow> Some (last (k # ks)))
              = Some (last kfs)"
    using assms(3,4) last_in last_max by (intro prevKey_eq) auto
  show ?thesis
  proof (cases "f = frame (last kfs)")
    case True
    have "find (\<lambda>k. f \<le> frame k) kfs = Some (last kfs)"
      using assms(3) last_in last_max True by (intro nextKey_eq) auto
    from getInterpolatedColor_both [OF assms(1,2) pv this] show ?thesis
      by (simp add: betweenKeys_same)
  next
    case False
    with assms(4) last_max have "\<forall>k \<in> set kfs. frame k < f" by force
    from getInterpolatedColor_prev_only [OF assms(1,2) pv nextKey_none [OF this]]
    show ?thesis .
  qed
qed

lemma getInterpolatedColor_between:
  assumes "keyframes color = Some kfs" and "kfInv kfs"
    and "p \<in> set kfs" and "frame p \<le> f"
    and "\<forall>k \<in> set kfs. frame k \<le> f \<longrightarrow> frame k \<le> frame p"
    and "n \<in> set kfs" and "f \<le> frame n"
    and "\<forall>k \<in> set kfs. f \<le> frame k \<longrightarrow> frame n \<le> frame k"
  shows "getInterpolatedColor f color = betweenKeys f p n"
proof -
  have ne: "kfs \<noteq> []" using assms(3) by auto
  show ?thesis
    by (rule getInterpolatedColor_both [OF assms(1) ne prevKey_eq [OF assms(2-5)]
          nextKey_eq [OF assms(2,6-8)]])
qed

lemma betweenKeys_nearest:
  assumes "frame p < frame n" and "frame p < f" and "f < frame n"
    and "frame n - frame p \<le> 2 ^ 42" and "byteColor p" and "byteColor n"
  shows "\<bar>of_int (r (betweenKeys f p n))
           - exactChannel (r p) (r n) (f - frame p) (frame n - frame p)\<bar> \<le> 1 / 2"
    and "\<bar>of_int (g (betweenKeys f p n))
           - exactChannel (g p) (g n) (f - frame p) (frame n - frame p)\<bar> \<le> 1 / 2"
    and "\<bar>of_int (b (betweenKeys f p n))
           - exactChannel (b p) (b n) (f - frame p) (frame n - frame p)\<bar> \<le> 1 / 2"
    and "\<bar>of_int (a (betweenKeys f p n))
           - exactChannel (a p) (a n) (f - frame p) (frame n - frame p)\<bar> \<le> 1 / 2"
proof -
  have k: "0 < f - frame p" "f - frame p < frame n - frame p" using assms(2,3) by simp_all
  have nz: "frame n - frame p \<noteq> 0" using assms(1) by simp
  have bk: "betweenKeys f p n =
      \<lparr> r = lerpChannel (r p) (r n) (fl (of_int (f - frame p) / of_int (frame n - frame p))),
        g = lerpChannel (g p) (g n) (fl (of_int (f - frame p) / of_int (frame n - frame p))),
        b = lerpChannel (b p) (b n) (fl (of_int (f - frame p) / of_int (frame n - frame p))),
        a = lerpChannel (a p) (a n) (fl (of_int (f - frame p) / of_int (frame n - frame p))) \<rparr>"
    using nz by (simp add: betweenKeys_def Let_def)
  note bp = assms(5) [unfolded byteColor_def]
  note bn = assms(6) [unfolded byteColor_def]
  show "\<bar>of_int (r (betweenKeys f p n))
           - exactChannel (r p) (r n) (f - frame p) (frame n - frame p)\<bar> \<le> 1 / 2"
    unfolding bk using lerpChannel_nearest [OF _ _ _ _ k assms(4), of "r p" "r n"] bp bn by simp
  show "\<bar>of_int (g (betweenKeys f p n))
           - exactChannel (g p) (g n) (f - frame p) (frame n - frame p)\<bar> \<le> 1 / 2"
    unfolding bk using lerpChannel_nearest [OF _ _ _ _ k assms(4), of "g p" "g n"] bp bn by simp
  show "\<bar>of_int (b (betweenKeys f p n))
           - exactChannel (b p) (b n) (f - frame p) (frame n - frame p)\<bar> \<le> 1 / 2"
    unfolding bk using lerpChannel_nearest [OF _ _ _ _ k assms(4), of "b p" "b n"] bp bn by simp
  show "\<bar>of_int (a (betweenKeys f p n))
           - exactChannel (a p) (a n) (f - frame p) (frame n - frame p)\<bar> \<le> 1 / 2"
    unfolding bk using lerpChannel_nearest [OF _ _ _ _ k assms(4), of "a p" "a n"] bp bn by simp
qed

lemma nearest_roundsTo:
  assumes "\<bar>of_int c - x\<bar> \<le> 1 / 2"
  shows "roundsTo c x"
proof -
  define m where "m = mathRound x"
  have m: "of_int m \<le> x + 1 / 2" "x + 1 / 2 < of_int m + 1"
    unfolding m_def mathRound_def by linarith+
  have c: "of_int c - 1 / 2 \<le> x" "x \<le> of_int c + 1 / 2"
    using assms by linarith+
  have "(of_int c :: rat) < of_int (m + 1)" using c(1) m(2) by simp
  then have "c < m + 1" by (simp only: of_int_less_iff)
  then have c_le: "c \<le> m" by simp
  have "(of_int m :: rat) < of_int (c + 2)" using c(2) m(1) by simp
  then have "m < c + 2" by (simp only: of_int_less_iff)
  then have m_le: "m \<le> c + 1" by simp
  show ?thesis
  proof (cases "c = m")
    case True
    then show ?thesis by (simp add: roundsTo_def m_def)
  next
    case False
    with c_le m_le have cm: "c = m - 1" by simp
    then have "x + 1 / 2 \<le> of_int m" using c(2) by simp
    with m(1) have "of_int m = x + 1 / 2" by simp
    with cm show ?thesis by (simp add: roundsTo_def m_def)
  qed
qed

text \<open>
  Claim C2, as amended.  For an entry whose keyframes are sorted ascending with unique
  frames: with no keyframe, \<open>getInterpolatedColor\<close> gives the base colour of the entry; at
  or before the first keyframe and at or after the last it gives that keyframe's colour
  exactly; otherwise, with \<open>p\<close> the keyframe of greatest frame at or below the query and
  \<open>n\<close> the keyframe of least frame at or above it, it gives the colour of \<open>p\<close> when both
  are the same frame (nothing is divided), and else each channel is
  \<open>Math.round (pC + (nC - pC) * factor)\<close> computed in doubles with
  \<open>factor = (frame - p.frame) / (n.frame - p.frame)\<close>: for channels that are bytes and a
  gap of at most \<open>2 ^ 42\<close> frames this is the rounding of the exact value
  \<open>pC + (nC - pC) * (frame - p.frame) / (n.frame - p.frame)\<close>, except that on an exact tie
  (an integer plus one half) the double arithmetic may give the integer below.
\<close>

theorem interpolated_color:
  assumes "keyframes color = Some kfs" and "kfInv kfs"
  shows "(kfs = [] \<longrightarrow> getInterpolatedColor f color = baseColor color)
       \<and> (kfs \<noteq> [] \<and> f \<le> frame (hd kfs) \<longrightarrow>
            getInterpolatedColor f color = baseColor (hd kfs))
       \<and> (kfs \<noteq> [] \<and> frame (last kfs) \<le> f \<longrightarrow>
            getInterpolatedColor f color = baseColor (last kfs))
       \<and> (p \<in> set kfs \<and> n \<in> set kfs \<and> frame p \<le> f \<and> f \<le> frame n
            \<and> (\<forall>k \<in> set kfs. frame k \<le> f \<longrightarrow> frame k \<le> frame p)
            \<and> (\<forall>k \<in> set kfs. f \<le> frame k \<longrightarrow> frame n \<le> frame k) \<longrightarrow>
              (frame p = frame n \<longrightarrow> getInterpolatedColor f color = baseColor p)
            \<and> (frame p < frame n \<and> frame n - frame p \<le> 2 ^ 42 \<and> byteColor p \<and> byteColor n \<longrightarrow>
                  roundsTo (r (getInterpolatedColor f color))
                    (exactChannel (r p) (r n) (f - frame p) (frame n - frame p))
                \<and> roundsTo (g (getInterpolatedColor f color))
                    (exactChannel (g p) (g n) (f - frame p) (frame n - frame p))
                \<and> roundsTo (b (getInterpolatedColor f color))
                    (exactChannel (b p) (b n) (f - frame p) (frame n - frame p))
                \<and> roundsTo (a (getInterpolatedColor f color))
                    (exactChannel (a p) (a n) (f - frame p) (frame n - frame p))))"
proof (intro conjI impI)
  assume "kfs = []"
  then show "getInterpolatedColor f color = baseColor color"
    using assms(1) by (simp add: getInterpolatedColor_static)
next
  assume "kfs \<noteq> [] \<and> f \<le> frame (hd kfs)"
  then show "getInterpolatedColor f color = baseColor (hd kfs)"
    using assms by (simp add: getInterpolatedColor_before_first)
next
  assume "kfs \<noteq> [] \<and> frame (last kfs) \<le> f"
  then show "getInterpolatedColor f color = baseColor (last kfs)"
    using assms by (simp add: getInterpolatedColor_after_last)
next
  assume h: "p \<in> set kfs \<and> n \<in> set kfs \<and> frame p \<le> f \<and> f \<le> frame n
            \<and> (\<forall>k \<in> set kfs. frame k \<le> f \<longrightarrow> frame k \<le> frame p)
            \<and> (\<forall>k \<in> set kfs. f \<le> frame k \<longrightarrow> frame n \<le> frame k)"
  then have h1: "p \<in> set kfs" and h2: "n \<in> set kfs" and h3: "frame p \<le> f"
    and h4: "f \<le> frame n"
    and h5: "\<forall>k \<in> set kfs. frame k \<le> f \<longrightarrow> frame k \<le> frame p"
    and h6: "\<forall>k \<in> set kfs. f \<le> frame k \<longrightarrow> frame n \<le> frame k"
    by blast+
  have bk: "getInterpolatedColor f color = betweenKeys f p n"
    by (rule getInterpolatedColor_between [OF assms h1 h3 h5 h2 h4 h6])
  {
    assume "frame p = frame n"
    then show "getInterpolatedColor f color = baseColor p"
      by (simp add: bk betweenKeys_def)
  }
  assume b: "frame p < frame n \<and> frame n - frame p \<le> 2 ^ 42 \<and> byteColor p \<and> byteColor n"
  have "f \<noteq> frame p"
  proof
    assume "f = frame p"
    with h1 h6 have "frame n \<le> frame p" by simp
    with b show False by simp
  qed
  with h3 have lo: "frame p < f" by simp
  have "f \<noteq> frame n"
  proof
    assume "f = frame n"
    with h2 h5 have "frame n \<le> frame p" by simp
    with b show False by simp
  qed
  with h4 have hi: "f < frame n" by simp
  note nr = betweenKeys_nearest [of p n f, folded bk]
  from b lo hi
  show "roundsTo (r (getInterpolatedColor f color))
          (exactChannel (r p) (r n) (f - frame p) (frame n - frame p))"
    by (intro nearest_roundsTo nr) simp_all
  from b lo hi
  show "roundsTo (g (getInterpolatedColor f color))
          (exactChannel (g p) (g n) (f - frame p) (frame n - frame p))"
    by (intro nearest_roundsTo nr) simp_all
  from b lo hi
  show "roundsTo (b (getInterpolatedColor f color))
          (exactChannel (b p) (b n) (f - frame p) (frame n - frame p))"
    by (intro nearest_roundsTo nr) simp_all
  from b lo hi
  show "roundsTo (a (getInterpolatedColor f color))
          (exactChannel (a p) (a n) (f - frame p) (frame n - frame p))"
    by (intro nearest_roundsTo nr) simp_all
qed

text \<open>
  The claim as it stands fails on a tie: between (frame 0, red 0) and (frame 10, red 45)
  the exact value at frame 7 is 31.5, which rounds to 32; the doubles give
  \<open>45 * 0.7 = 31.499999999999996\<close> and the result is 31.
\<close>

theorem interpolation_tie_counterexample:
  "getInterpolatedColor 7 ramp = \<lparr> r = 31, g = 63, b = 70, a = 255 \<rparr>
   \<and> mathRound (of_int (r rampStart)
        + of_int (r rampEnd - r rampStart) * of_int (7 - frame rampStart)
          / of_int (frame rampEnd - frame rampStart)) = 32"
  by code_simp

lemma ramp_eval:
  "getInterpolatedColor 5 ramp = \<lparr> r = 23, g = 45, b = 50, a = 255 \<rparr>"
  "getInterpolatedColor (- 3) ramp = \<lparr> r = 0, g = 0, b = 0, a = 255 \<rparr>"
  "getInterpolatedColor 20 ramp = \<lparr> r = 45, g = 90, b = 100, a = 255 \<rparr>"
  "getInterpolatedColor 0 ramp = \<lparr> r = 0, g = 0, b = 0, a = 255 \<rparr>"
  "getInterpolatedColor 10 ramp = \<lparr> r = 45, g = 90, b = 100, a = 255 \<rparr>"
  by code_simp+

lemma ramp_hyps:
  "keyframes ramp = Some [rampStart, rampEnd]"
  "kfInv [rampStart, rampEnd]"
  "rampStart \<in> set [rampStart, rampEnd]"
  "rampEnd \<in> set [rampStart, rampEnd]"
  "frame rampStart \<le> 7"
  "7 \<le> frame rampEnd"
  "\<forall>k \<in> set [rampStart, rampEnd]. frame k \<le> 7 \<longrightarrow> frame k \<le> frame rampStart"
  "\<forall>k \<in> set [rampStart, rampEnd]. 7 \<le> frame k \<longrightarrow> frame rampEnd \<le> frame k"
  "frame rampStart < frame rampEnd"
  "frame rampEnd - frame rampStart \<le> 2 ^ 42"
  "byteColor rampStart"
  "byteColor rampEnd"
  by (simp_all add: ramp_def rampStart_def rampEnd_def kfInv_def byteColor_def)

theorem interpolated_color_witness:
  "keyframes ramp = Some [rampStart, rampEnd] \<and> kfInv [rampStart, rampEnd]
   \<and> frame rampStart \<le> 7 \<and> 7 \<le> frame rampEnd
   \<and> frame rampStart < frame rampEnd \<and> frame rampEnd - frame rampStart \<le> 2 ^ 42
   \<and> byteColor rampStart \<and> byteColor rampEnd
   \<and> roundsTo (r (getInterpolatedColor 7 ramp))
         (exactChannel (r rampStart) (r rampEnd) (7 - frame rampStart)
            (frame rampEnd - frame rampStart))
   \<and> getInterpolatedColor 20 ramp = baseColor (last [rampStart, rampEnd])"
proof -
  note h = ramp_hyps
  note t = interpolated_color [OF h(1,2)]
  have sel: "rampStart \<in> set [rampStart, rampEnd] \<and> rampEnd \<in> set [rampStart, rampEnd]
      \<and> frame rampStart \<le> 7 \<and> 7 \<le> frame rampEnd
      \<and> (\<forall>k \<in> set [rampStart, rampEnd]. frame k \<le> 7 \<longrightarrow> frame k \<le> frame rampStart)
      \<and> (\<forall>k \<in> set [rampStart, rampEnd]. 7 \<le> frame k \<longrightarrow> frame rampEnd \<le> frame k)"
    using h(3-8) by blast
  have bnd: "frame rampStart < frame rampEnd \<and> frame rampEnd - frame rampStart \<le> 2 ^ 42
      \<and> byteColor rampStart \<and> byteColor rampEnd"
    using h(9-12) by blast
  note four = t [where f = 7 and p = rampStart and n = rampEnd, THEN conjunct2, THEN conjunct2, THEN conjunct2,
      THEN mp, OF sel, THEN conjunct2, THEN mp, OF bnd, THEN conjunct1]
  have lastc: "[rampStart, rampEnd] \<noteq> [] \<and> frame (last [rampStart, rampEnd]) \<le> 20"
    by (simp add: rampEnd_def)
  note three = t [where f = 20, THEN conjunct2, THEN conjunct2, THEN conjunct1, THEN mp, OF lastc]
  show ?thesis
    by (rule conjI [OF h(1) conjI [OF h(2) conjI [OF h(5) conjI [OF h(6) conjI [OF h(9)
          conjI [OF h(10) conjI [OF h(11) conjI [OF h(12) conjI [OF four three]]]]]]]]])
qed

end
